theory Spec2Isabelle
  imports Main "HOL-Library.Multiset" "HOL-Library.Sublist"
begin

section \<open>The watcher scheduler of src/core/observer/scheduler.js\<close>

text \<open>
  The module keeps its state in module-level variables and calls back into code it does
  not own: a watcher's \<open>before\<close> and \<open>run\<close>, the after-flush callbacks, the
  lifecycle hooks, \<open>warn\<close>, \<open>handleError\<close>, \<open>nextTick\<close> and the devtools
  hook. The embedding makes both explicit.

  \<^item> The module-level variables are the fields of the record \<open>world\<close>, passed in and
    returned by every function.
  \<^item> Watchers, components and after-flush callbacks are objects; they are referred to by
    reference (a number), so that the same watcher can sit in the queue twice and
    \<open>vm._watcher === watcher\<close> is a comparison of references.
  \<^item> What a watcher or callback does when it is called is a list of \<open>action\<close>s: calls of
    the functions this module exports, a \<open>throw\<close>, or a write to a component.
  \<^item> Calls that leave the module (\<open>warn\<close>, \<open>handleError\<close>, \<open>callHook\<close>,
    \<open>activateChildComponent\<close>, \<open>devtools.emit\<close>) append an \<open>event\<close> to the
    field \<open>trace\<close>; so do the calls of \<open>before\<close>, \<open>run\<close> and of a callback, which
    is how the order of execution is observed.
  \<^item> A JavaScript exception is the result \<open>Thrown e w\<close>: the error together with the
    state the module variables have when it is raised.
  \<^item> The flush loop need not end; the loops take fuel and \<open>None\<close> is "no result yet".
\<close>

subsection \<open>Data\<close>

type_synonym wref = nat
type_synonym vmref = nat
type_synonym cbref = nat

text \<open>The fields of a component that the scheduler reads or writes.\<close>

record vm =
  vm_watcher :: "wref option"
  isMounted :: bool
  isDestroyed :: bool
  inactive :: bool

datatype action =
    QueueWatcher wref
  | QueueActivatedComponent vmref
  | AfterFlush cbref
  | ForceFlush "int option"
  | Wrapped "action list"
  | Throw string
  | SetVm vmref vm

record watcher =
  id_w :: int
  before :: "action list option"
  run :: "action list"
  user :: bool
  expression :: string
  vm :: vmref

datatype error = Error string | TypeError

datatype event =
    EvBefore wref
  | EvRun wref
  | EvCallback cbref
  | EvWarn string vmref
  | EvHandleError error string
  | EvActivated vmref
  | EvUpdated vmref
  | EvDevtoolsFlush

text \<open>
  The program around the scheduler: the watcher and callback objects, the configuration
  (\<open>config.async\<close>, \<open>process.env.NODE_ENV === 'production'\<close>,
  \<open>devtools && config.devtools\<close>).
\<close>

record env =
  watchers :: "wref \<Rightarrow> watcher"
  callbacks :: "cbref \<Rightarrow> action list"
  config_async :: bool
  production :: bool
  devtools_on :: bool

text \<open>
  The module variables (\<open>queue\<close> to \<open>currentFlushTimestamp\<close>), then the world outside:
  the component objects, the clock \<open>getNow\<close> reads, the number of
  \<open>nextTick(flushSchedulerQueue)\<close> registrations not yet run, and the event log.
  \<open>has[id]\<close> is only ever \<open>true\<close>, \<open>null\<close> or missing and only ever compared
  with \<open>null\<close> by \<open>==\<close>, so \<open>null\<close> and missing are both \<open>None\<close>.
\<close>

record world =
  queue :: "wref list"
  activatedChildren :: "vmref list"
  has :: "int \<rightharpoonup> unit"
  circular :: "int \<rightharpoonup> int"
  waiting :: bool
  flushing :: bool
  insideRun :: bool
  index :: nat
  afterFlushCallbacks :: "cbref list"
  currentFlushTimestamp :: int
  vms :: "vmref \<Rightarrow> vm"
  now :: int
  scheduled :: nat
  trace :: "event list"

datatype result = Returned world | Thrown error world

fun world_of :: "result \<Rightarrow> world" where
  "world_of (Returned w) = w"
| "world_of (Thrown e w) = w"

type_synonym flush_fn = "int option \<Rightarrow> world \<Rightarrow> result option"

definition MAX_UPDATE_COUNT :: int where
  "MAX_UPDATE_COUNT = 100"

definition emit :: "event \<Rightarrow> world \<Rightarrow> world" where
  "emit e w = w\<lparr>trace := trace w @ [e]\<rparr>"

text \<open>Sequencing: the next statement runs only if the one before returned.\<close>

fun and_then :: "result option \<Rightarrow> (world \<Rightarrow> result option) \<Rightarrow> result option" where
  "and_then None f = None"
| "and_then (Some (Thrown e w)) f = Some (Thrown e w)"
| "and_then (Some (Returned w)) f = f w"

subsection \<open>resetSchedulerState\<close>

definition resetSchedulerState :: "env \<Rightarrow> world \<Rightarrow> world" where
  "resetSchedulerState env w =
     (let w1 = (if index w = length (queue w)
                then w\<lparr>index := 0, queue := [], activatedChildren := []\<rparr>
                else w\<lparr>queue := drop (index w) (queue w), index := 0,
                       activatedChildren := []\<rparr>);
          w2 = w1\<lparr>has := Map.empty\<rparr>;
          w3 = (if \<not> production env then w2\<lparr>circular := Map.empty\<rparr> else w2)
      in w3\<lparr>waiting := False, flushing := False\<rparr>)"

subsection \<open>The hooks after a flush\<close>

text \<open>
  \<open>callUpdatedHooks\<close> counts \<open>i\<close> down from \<open>endIndex\<close>. Reading \<open>queue[i]\<close> past the
  end gives \<open>undefined\<close>, and \<open>watcher.vm\<close> then throws a TypeError.
\<close>

fun callUpdatedHooks :: "env \<Rightarrow> wref list \<Rightarrow> nat \<Rightarrow> world \<Rightarrow> result" where
  "callUpdatedHooks env q 0 w = Returned w"
| "callUpdatedHooks env q (Suc i) w =
     (if i < length q then
        (let watcher = q ! i;
             v = vm (watchers env watcher);
             c = vms w v
         in callUpdatedHooks env q i
              (if vm_watcher c = Some watcher \<and> isMounted c \<and> \<not> isDestroyed c
               then emit (EvUpdated v) w else w))
      else Thrown TypeError w)"

fun callActivatedHooks :: "vmref list \<Rightarrow> world \<Rightarrow> world" where
  "callActivatedHooks [] w = w"
| "callActivatedHooks (v # vs) w =
     callActivatedHooks vs
       (emit (EvActivated v) (w\<lparr>vms := (vms w)(v := (vms w v)\<lparr>inactive := True\<rparr>)\<rparr>))"

definition queueActivatedComponent :: "vmref \<Rightarrow> world \<Rightarrow> world" where
  "queueActivatedComponent v w =
     w\<lparr>vms := (vms w)(v := (vms w v)\<lparr>inactive := False\<rparr>),
       activatedChildren := activatedChildren w @ [v]\<rparr>"

subsection \<open>requireFlush, queueWatcher, afterFlush\<close>

text \<open>
  These functions call \<open>flushSchedulerQueue\<close>, which runs watchers, which call these
  functions. The parameter \<open>fl\<close> is the \<open>flushSchedulerQueue\<close> they call; the knot is
  tied in the definition of \<open>flushSchedulerQueue\<close> below.
\<close>

definition requireFlush :: "flush_fn \<Rightarrow> env \<Rightarrow> world \<Rightarrow> result option" where
  "requireFlush fl env w =
     (if \<not> waiting w then
        (let w1 = w\<lparr>waiting := True\<rparr>
         in if \<not> production env \<and> \<not> config_async env then fl None w1
            else Some (Returned (w1\<lparr>scheduled := Suc (scheduled w1)\<rparr>)))
      else Some (Returned w))"

text \<open>
  The backward scan of \<open>queueWatcher\<close>: \<open>i\<close> starts at \<open>queue.length - 1\<close>, which is
  \<open>-1\<close> for an empty queue, so it is an integer.
\<close>

function scan_back :: "env \<Rightarrow> wref list \<Rightarrow> nat \<Rightarrow> int \<Rightarrow> int \<Rightarrow> int" where
  "scan_back env q idx wid i =
     (if i > int idx \<and> id_w (watchers env (q ! nat i)) > wid
      then scan_back env q idx wid (i - 1) else i)"
  by pat_completeness auto
termination
  by (relation "measure (\<lambda>(env, q, idx, wid, i). nat i)") auto

text \<open>\<open>queue.splice(p, 0, x)\<close> for \<open>p \<ge> 0\<close>; a \<open>p\<close> past the end appends.\<close>

definition splice_in :: "nat \<Rightarrow> 'a \<Rightarrow> 'a list \<Rightarrow> 'a list" where
  "splice_in p x q = take p q @ [x] @ drop p q"

text \<open>The position \<open>i + 1\<close> at which \<open>queueWatcher\<close> splices during a flush.\<close>

definition insert_position :: "env \<Rightarrow> world \<Rightarrow> wref \<Rightarrow> nat" where
  "insert_position env w watcher =
     nat (scan_back env (queue w) (index w) (id_w (watchers env watcher))
            (int (length (queue w)) - 1) + 1)"

definition queueWatcher :: "flush_fn \<Rightarrow> env \<Rightarrow> wref \<Rightarrow> world \<Rightarrow> result option" where
  "queueWatcher fl env watcher w =
     (let i = id_w (watchers env watcher)
      in if has w i = None then
           (let w1 = w\<lparr>has := (has w)(i \<mapsto> ())\<rparr>;
                w2 = (if \<not> flushing w1 then w1\<lparr>queue := queue w1 @ [watcher]\<rparr>
                      else w1\<lparr>queue := splice_in (insert_position env w1 watcher) watcher
                                         (queue w1)\<rparr>)
            in requireFlush fl env w2)
         else Some (Returned w))"

definition afterFlush :: "flush_fn \<Rightarrow> env \<Rightarrow> cbref \<Rightarrow> world \<Rightarrow> result option" where
  "afterFlush fl env f w =
     requireFlush fl env (w\<lparr>afterFlushCallbacks := afterFlushCallbacks w @ [f]\<rparr>)"

definition forceFlush :: "flush_fn \<Rightarrow> int option \<Rightarrow> world \<Rightarrow> result option" where
  "forceFlush fl maxUpdateCount w = fl maxUpdateCount w"

definition isFlushing :: "world \<Rightarrow> bool" where
  "isFlushing w = flushing w"

subsection \<open>Running the code of a watcher or callback\<close>

text \<open>
  \<open>wrapWatcherGetter\<close>'s \<open>finally\<close> puts \<open>insideRun\<close> back whether the wrapped
  function returned or threw.
\<close>

fun restore_insideRun :: "bool \<Rightarrow> result \<Rightarrow> result" where
  "restore_insideRun b (Returned w) = Returned (w\<lparr>insideRun := b\<rparr>)"
| "restore_insideRun b (Thrown e w) = Thrown e (w\<lparr>insideRun := b\<rparr>)"

fun exec :: "flush_fn \<Rightarrow> env \<Rightarrow> action list \<Rightarrow> world \<Rightarrow> result option"
  and exec_action :: "flush_fn \<Rightarrow> env \<Rightarrow> action \<Rightarrow> world \<Rightarrow> result option" where
  "exec fl env [] w = Some (Returned w)"
| "exec fl env (a # as) w =
     (case exec_action fl env a w of
        None \<Rightarrow> None
      | Some (Thrown e w') \<Rightarrow> Some (Thrown e w')
      | Some (Returned w') \<Rightarrow> exec fl env as w')"
| "exec_action fl env (QueueWatcher r) w = queueWatcher fl env r w"
| "exec_action fl env (QueueActivatedComponent v) w = Some (Returned (queueActivatedComponent v w))"
| "exec_action fl env (AfterFlush f) w = afterFlush fl env f w"
| "exec_action fl env (ForceFlush m) w = forceFlush fl m w"
| "exec_action fl env (Wrapped body) w =
     map_option (restore_insideRun (insideRun w)) (exec fl env body (w\<lparr>insideRun := True\<rparr>))"
| "exec_action fl env (Throw s) w = Some (Thrown (Error s) w)"
| "exec_action fl env (SetVm v c) w = Some (Returned (w\<lparr>vms := (vms w)(v := c)\<rparr>))"

subsection \<open>flushSchedulerQueue\<close>

text \<open>One pass of the body of the \<open>for\<close> loop, before \<open>index++\<close>.\<close>

datatype iteration = Next world | Break world | Raise error world

definition warning :: "watcher \<Rightarrow> string" where
  "warning wt =
     ''You may have an infinite update loop '' @
       (if user wt then ''in watcher with expression \"'' @ expression wt @ ''\"''
        else ''in a component render function.'')"

definition check_circular :: "env \<Rightarrow> int \<Rightarrow> wref \<Rightarrow> world \<Rightarrow> iteration" where
  "check_circular env maxUpdateCount watcher w =
     (let wt = watchers env watcher; i = id_w wt
      in if \<not> production env \<and> has w i \<noteq> None then
           (let c = (case circular w i of None \<Rightarrow> 0 | Some c \<Rightarrow> c) + 1;
                w1 = w\<lparr>circular := (circular w)(i \<mapsto> c)\<rparr>
            in if c > maxUpdateCount
               then Break ((emit (EvWarn (warning wt) (vm wt)) w1)\<lparr>index := length (queue w1)\<rparr>)
               else Next w1)
         else Next w)"

definition for_body :: "flush_fn \<Rightarrow> env \<Rightarrow> int \<Rightarrow> world \<Rightarrow> iteration option" where
  "for_body fl env maxUpdateCount w =
     (let watcher = queue w ! index w;
          wt = watchers env watcher
      in case (case before wt of
                 None \<Rightarrow> Some (Returned w)
               | Some b \<Rightarrow> exec fl env b (emit (EvBefore watcher) w)) of
           None \<Rightarrow> None
         | Some (Thrown e w1) \<Rightarrow> Some (Raise e w1)
         | Some (Returned w1) \<Rightarrow>
             (case exec fl env (run wt)
                     (emit (EvRun watcher) (w1\<lparr>has := (has w1)(id_w wt := None)\<rparr>)) of
                None \<Rightarrow> None
              | Some (Thrown e w2) \<Rightarrow> Some (Raise e w2)
              | Some (Returned w2) \<Rightarrow> Some (check_circular env maxUpdateCount watcher w2)))"

fun flush_for :: "flush_fn \<Rightarrow> nat \<Rightarrow> env \<Rightarrow> int \<Rightarrow> world \<Rightarrow> result option" where
  "flush_for fl 0 env m w =
     (if index w < length (queue w) then None else Some (Returned w))"
| "flush_for fl (Suc k) env m w =
     (if index w < length (queue w) then
        (case for_body fl env m w of
           None \<Rightarrow> None
         | Some (Raise e w') \<Rightarrow> Some (Thrown e w')
         | Some (Break w') \<Rightarrow> Some (Returned w')
         | Some (Next w') \<Rightarrow> flush_for fl k env m (w'\<lparr>index := Suc (index w')\<rparr>))
      else Some (Returned w))"

text \<open>
  The callback step of the \<open>while\<close> loop: \<open>shift\<close> one callback and call it; what it
  throws goes to \<open>handleError\<close>.
\<close>

definition call_afterFlush :: "flush_fn \<Rightarrow> env \<Rightarrow> world \<Rightarrow> result option" where
  "call_afterFlush fl env w =
     (case afterFlushCallbacks w of
        [] \<Rightarrow> Some (Returned w)
      | func # rest \<Rightarrow>
          (case exec fl env (callbacks env func)
                  (emit (EvCallback func) (w\<lparr>afterFlushCallbacks := rest\<rparr>)) of
             None \<Rightarrow> None
           | Some (Returned w') \<Rightarrow> Some (Returned w')
           | Some (Thrown e w') \<Rightarrow>
               Some (Returned (emit (EvHandleError e ''Error in an after flush callback.'') w'))))"

fun flush_while :: "flush_fn \<Rightarrow> nat \<Rightarrow> env \<Rightarrow> int \<Rightarrow> world \<Rightarrow> result option" where
  "flush_while fl 0 env m w =
     (if length (queue w) \<noteq> index w \<or> afterFlushCallbacks w \<noteq> [] then None
      else Some (Returned w))"
| "flush_while fl (Suc k) env m w =
     (if length (queue w) \<noteq> index w \<or> afterFlushCallbacks w \<noteq> [] then
        and_then (flush_for fl (Suc k) env m w) (\<lambda>w1.
        and_then (call_afterFlush fl env w1) (\<lambda>w2.
        flush_while fl k env m w2))
      else Some (Returned w))"

text \<open>
  The \<open>finally\<close> block. It gets the result of the \<open>try\<close> block; an exception of the
  \<open>try\<close> block goes on to the caller after it, unless the block throws itself.
\<close>

definition flush_finally :: "env \<Rightarrow> result \<Rightarrow> result" where
  "flush_finally env r =
     (let w = world_of r;
          activatedQueue = activatedChildren w;
          updatedQueue = queue w;
          endIndex = index w;
          w1 = resetSchedulerState env w;
          w2 = callActivatedHooks activatedQueue w1
      in case callUpdatedHooks env updatedQueue endIndex w2 of
           Thrown e w3 \<Rightarrow> Thrown e w3
         | Returned w3 \<Rightarrow>
             (let w4 = (if devtools_on env then emit EvDevtoolsFlush w3 else w3)
              in case r of Returned _ \<Rightarrow> Returned w4 | Thrown e _ \<Rightarrow> Thrown e w4))"

text \<open>
  The \<open>try\<close> block. \<open>queue.sort\<close> with the comparator \<open>a.id - b.id\<close> is a stable sort
  by id (ECMAScript 2019); \<open>sort_key\<close> is one.
\<close>

definition flush_try :: "flush_fn \<Rightarrow> nat \<Rightarrow> env \<Rightarrow> int \<Rightarrow> world \<Rightarrow> result option" where
  "flush_try fl k env m w =
     flush_while fl k env m
       (w\<lparr>queue := sort_key (\<lambda>r. id_w (watchers env r)) (queue w), index := 0\<rparr>)"

definition limit_of :: "int option \<Rightarrow> int" where
  "limit_of maxUpdateCount =
     (case maxUpdateCount of
        None \<Rightarrow> MAX_UPDATE_COUNT
      | Some c \<Rightarrow> if c = 0 then MAX_UPDATE_COUNT else c)"

fun flushSchedulerQueue :: "nat \<Rightarrow> env \<Rightarrow> int option \<Rightarrow> world \<Rightarrow> result option" where
  "flushSchedulerQueue 0 env maxUpdateCount w =
     (if flushing w then Some (Thrown (Error ''Cannot flush while already flushing.'') w)
      else if insideRun w then Some (Thrown (Error ''Cannot flush while running a watcher.'') w)
      else None)"
| "flushSchedulerQueue (Suc n) env maxUpdateCount w =
     (if flushing w then Some (Thrown (Error ''Cannot flush while already flushing.'') w)
      else if insideRun w then Some (Thrown (Error ''Cannot flush while running a watcher.'') w)
      else map_option (flush_finally env)
             (flush_try (\<lambda>m' w'. flushSchedulerQueue n env m' w') (Suc n) env
                (limit_of maxUpdateCount)
                (w\<lparr>currentFlushTimestamp := now w, flushing := True\<rparr>)))"

subsection \<open>Code that uses the scheduler\<close>

text \<open>
  Code outside the module calls the exported functions one after the other; \<open>n\<close> is the
  fuel of the flushes it starts.
\<close>

definition script :: "nat \<Rightarrow> env \<Rightarrow> action list \<Rightarrow> world \<Rightarrow> result option" where
  "script n env as w = exec (\<lambda>m' w'. flushSchedulerQueue n env m' w') env as w"

text \<open>The watchers that were run, and the components that were notified, in order.\<close>

fun ran :: "event list \<Rightarrow> wref list" where
  "ran [] = []"
| "ran (EvRun r # es) = r # ran es"
| "ran (e # es) = ran es"

fun updated :: "event list \<Rightarrow> vmref list" where
  "updated [] = []"
| "updated (EvUpdated v # es) = v # updated es"
| "updated (e # es) = updated es"

fun warned :: "event list \<Rightarrow> (string \<times> vmref) list" where
  "warned [] = []"
| "warned (EvWarn s v # es) = (s, v) # warned es"
| "warned (e # es) = warned es"

subsection \<open>A small program\<close>

text \<open>
  Component \<open>v\<close> is mounted and its render watcher is watcher \<open>v\<close>. Watcher \<open>r\<close> has
  id \<open>r\<close>. Watcher 5 queues watcher 2 when it runs, watcher 6 calls \<open>forceFlush\<close>,
  watcher 7 queues itself, watcher 9 throws, the others do nothing. Callback 0 queues
  watcher 4, callback 1 calls \<open>forceFlush\<close>.
\<close>

definition component :: "vmref \<Rightarrow> vm" where
  "component v = \<lparr>vm_watcher = Some v, isMounted = True, isDestroyed = False, inactive = False\<rparr>"

definition idle :: world where
  "idle = \<lparr>queue = [], activatedChildren = [], has = Map.empty, circular = Map.empty,
     waiting = False, flushing = False, insideRun = False, index = 0,
     afterFlushCallbacks = [], currentFlushTimestamp = 0,
     vms = component, now = 1, scheduled = 0, trace = []\<rparr>"

definition job :: "nat \<Rightarrow> action list \<Rightarrow> watcher" where
  "job r b = \<lparr>id_w = int r, before = None, run = b, user = False, expression = [], vm = r\<rparr>"

definition demo_env :: env where
  "demo_env =
     \<lparr>watchers = (\<lambda>r. job r (if r = 5 then [QueueWatcher 2]
                             else if r = 6 then [ForceFlush None]
                             else if r = 7 then [QueueWatcher 7]
                             else if r = 9 then [Throw ''boom'']
                             else [])),
      callbacks = (\<lambda>c. if c = 0 then [QueueWatcher 4]
                       else if c = 1 then [ForceFlush None] else []),
      config_async = True, production = False, devtools_on = False\<rparr>"

subsection \<open>Notions used in the properties\<close>

text \<open>
  Code is quiet when it calls neither \<open>queueWatcher\<close> nor \<open>afterFlush\<close> nor
  \<open>forceFlush\<close> and does not throw: it leaves the scheduler alone.
\<close>

fun quiet :: "action \<Rightarrow> bool" and quiets :: "action list \<Rightarrow> bool" where
  "quiet (QueueWatcher r) = False"
| "quiet (QueueActivatedComponent v) = True"
| "quiet (AfterFlush f) = False"
| "quiet (ForceFlush m) = False"
| "quiet (Wrapped body) = quiets body"
| "quiet (Throw s) = False"
| "quiet (SetVm v c) = True"
| "quiets [] = True"
| "quiets (a # as) = (quiet a \<and> quiets as)"

definition quiet_watcher :: "env \<Rightarrow> wref \<Rightarrow> bool" where
  "quiet_watcher env r =
     (quiets (run (watchers env r)) \<and>
      (case before (watchers env r) of None \<Rightarrow> True | Some b \<Rightarrow> quiets b))"

text \<open>The test of \<open>callUpdatedHooks\<close>, on the components \<open>V\<close>.\<close>

definition live :: "env \<Rightarrow> (vmref \<Rightarrow> vm) \<Rightarrow> wref \<Rightarrow> bool" where
  "live env V r =
     (vm_watcher (V (vm (watchers env r))) = Some r \<and>
      isMounted (V (vm (watchers env r))) \<and> \<not> isDestroyed (V (vm (watchers env r))))"

text \<open>
  What the \<open>finally\<close> block of \<open>flushSchedulerQueue\<close> reports, when the \<open>try\<close> block
  has ended in state \<open>w\<close>: the activated components, then the watchers before the cursor
  that pass the test, last first, then the devtools hook.
\<close>

definition hook_events :: "env \<Rightarrow> world \<Rightarrow> event list" where
  "hook_events env w =
     map EvActivated (activatedChildren w) @
     map (\<lambda>r. EvUpdated (vm (watchers env r)))
       (filter (live env (vms w)) (rev (take (index w) (queue w)))) @
     (if devtools_on env then [EvDevtoolsFlush] else [])"

text \<open>
  What code called during a flush can change: \<open>progressed w evs w'\<close> holds when \<open>w'\<close> is
  still flushing, has the cursor, the \<open>insideRun\<close> flag and the timestamp of \<open>w\<close>, the
  event log of \<open>w\<close> followed by \<open>evs\<close>, and a queue that is at least as long and agrees
  with the queue of \<open>w\<close> up to and including the cursor's entry.
\<close>

definition progressed :: "world \<Rightarrow> event list \<Rightarrow> world \<Rightarrow> bool" where
  "progressed w evs w' =
     (flushing w' \<and> index w' = index w \<and> insideRun w' = insideRun w \<and>
      trace w' = trace w @ evs \<and> currentFlushTimestamp w' = currentFlushTimestamp w \<and>
      length (queue w) \<le> length (queue w') \<and>
      take (min (Suc (index w)) (length (queue w))) (queue w') =
        take (min (Suc (index w)) (length (queue w))) (queue w))"

text \<open>
  What a loop of the flush has done when it ends with \<open>res\<close>, having started in \<open>w\<close> and
  logged \<open>evs\<close>: the cursor has not gone back and is inside the queue, the entries before
  the old cursor are as they were, no \<open>updated\<close> hook was called; and if the loop returned,
  the cursor is at the end of the queue and, unless a warning was given, the watchers run
  are the entries from the old cursor on.
\<close>

definition looped :: "world \<Rightarrow> event list \<Rightarrow> result \<Rightarrow> bool" where
  "looped w evs res =
     (flushing (world_of res) \<and> insideRun (world_of res) = insideRun w \<and>
      currentFlushTimestamp (world_of res) = currentFlushTimestamp w \<and>
      trace (world_of res) = trace w @ evs \<and> updated evs = [] \<and>
      index w \<le> index (world_of res) \<and>
      index (world_of res) \<le> length (queue (world_of res)) \<and>
      take (index w) (queue (world_of res)) = take (index w) (queue w) \<and>
      (case res of
         Thrown e w' \<Rightarrow> True
       | Returned w' \<Rightarrow>
           index w' = length (queue w') \<and>
           (if warned evs = [] then ran evs = drop (index w) (queue w') else True)))"

text \<open>
  How the watchers a loop has run relate to the queue it leaves, when it has started in
  \<open>w\<close>, logged \<open>evs\<close> and ended with \<open>res\<close>. The runs are \<open>rs\<close> followed by \<open>t\<close>. The
  watchers of \<open>rs\<close> are entries between the old and the new cursor, in queue order, and
  they are all of these entries unless a warning was given. \<open>t\<close> is empty when the loop
  returned; when it threw, the entry at the cursor is the one that threw, and \<open>t\<close> is its
  run if \<open>run\<close> threw and empty if \<open>before\<close> threw.
\<close>

definition accounted :: "world \<Rightarrow> event list \<Rightarrow> result \<Rightarrow> bool" where
  "accounted w evs res =
     (\<exists>rs t. ran evs = rs @ t \<and>
        subseq rs (drop (index w) (take (index (world_of res)) (queue (world_of res)))) \<and>
        (if warned evs = []
         then rs = drop (index w) (take (index (world_of res)) (queue (world_of res)))
         else True) \<and>
        (case res of
           Returned w' \<Rightarrow> t = []
         | Thrown e w' \<Rightarrow>
             index w' < length (queue w') \<and> (t = [] \<or> t = [queue w' ! index w'])))"

text \<open>
  A flush function is guarded when it refuses a call during a flush the way
  \<open>flushSchedulerQueue\<close> does.
\<close>

definition guarded :: "flush_fn \<Rightarrow> bool" where
  "guarded fl =
     (\<forall>m w. flushing w \<longrightarrow>
        fl m w = Some (Thrown (Error ''Cannot flush while already flushing.'') w))"

section \<open>Properties\<close>

subsection \<open>The reentrancy guard\<close>

lemma flush_guard_flushing:
  "flushing w \<Longrightarrow>
   flushSchedulerQueue n env m w =
     Some (Thrown (Error ''Cannot flush while already flushing.'') w)"
  by (cases n) simp_all

lemma flush_guard_insideRun:
  "\<not> flushing w \<Longrightarrow> insideRun w \<Longrightarrow>
   flushSchedulerQueue n env m w =
     Some (Thrown (Error ''Cannot flush while running a watcher.'') w)"
  by (cases n) simp_all

text \<open>
  C6, as the code has it. A call of \<open>flushSchedulerQueue\<close> while \<open>flushing\<close> is set, or
  while \<open>insideRun\<close> is set, throws and leaves the module state as it was given: no
  timestamp, no flag, no event. A call of \<open>forceFlush\<close> from inside a function wrapped by
  \<open>wrapWatcherGetter\<close> throws the same way, and the wrapper puts \<open>insideRun\<close> back.
  \<open>flushSchedulerQueue\<close> has no handler for the error. Code that calls it during a
  flush, wrapped or not, ends with the error; thrown in the \<open>run\<close> of a watcher, the
  error ends the loops of that flush as an exception. Thrown in an
  after-flush callback, it is caught by the handler around the callback and given to
  \<open>handleError\<close>, and the callback step returns.
\<close>

theorem flush_reentrancy_fails_unchanged:
  "(flushing w \<longrightarrow>
      flushSchedulerQueue n env m w =
        Some (Thrown (Error ''Cannot flush while already flushing.'') w)) \<and>
   (\<not> flushing w \<and> insideRun w \<longrightarrow>
      flushSchedulerQueue n env m w =
        Some (Thrown (Error ''Cannot flush while running a watcher.'') w)) \<and>
   (\<not> flushing w \<longrightarrow>
      exec_action (\<lambda>m' w'. flushSchedulerQueue n env m' w') env (Wrapped [ForceFlush m]) w =
        Some (Thrown (Error ''Cannot flush while running a watcher.'') w)) \<and>
   (flushing w \<and> index w < length (queue w) \<and>
    before (watchers env (queue w ! index w)) = None \<and>
    run (watchers env (queue w ! index w)) = ForceFlush m # as \<longrightarrow>
      for_body (\<lambda>m' w'. flushSchedulerQueue n env m' w') env lim w =
        Some (Raise (Error ''Cannot flush while already flushing.'')
          (emit (EvRun (queue w ! index w))
             (w\<lparr>has := (has w)(id_w (watchers env (queue w ! index w)) := None)\<rparr>))) \<and>
      flush_while (\<lambda>m' w'. flushSchedulerQueue n env m' w') (Suc k) env lim w =
        Some (Thrown (Error ''Cannot flush while already flushing.'')
          (emit (EvRun (queue w ! index w))
             (w\<lparr>has := (has w)(id_w (watchers env (queue w ! index w)) := None)\<rparr>)))) \<and>
   (flushing w \<and> afterFlushCallbacks w = c # cs \<and> callbacks env c = ForceFlush m # as \<longrightarrow>
      call_afterFlush (\<lambda>m' w'. flushSchedulerQueue n env m' w') env w =
        Some (Returned
          (emit (EvHandleError (Error ''Cannot flush while already flushing.'')
                   ''Error in an after flush callback.'')
             (emit (EvCallback c) (w\<lparr>afterFlushCallbacks := cs\<rparr>))))) \<and>
   (flushing w \<longrightarrow>
      exec (\<lambda>m' w'. flushSchedulerQueue n env m' w') env (ForceFlush m # as) w =
        Some (Thrown (Error ''Cannot flush while already flushing.'') w) \<and>
      exec_action (\<lambda>m' w'. flushSchedulerQueue n env m' w') env (Wrapped (ForceFlush m # as)) w =
        Some (Thrown (Error ''Cannot flush while already flushing.'') w))"
proof (intro conjI impI)
  let ?fl = "\<lambda>m' w'. flushSchedulerQueue n env m' w'"
  show "flushSchedulerQueue n env m w =
        Some (Thrown (Error ''Cannot flush while already flushing.'') w)" if "flushing w"
    using that by (rule flush_guard_flushing)
  show "flushSchedulerQueue n env m w =
        Some (Thrown (Error ''Cannot flush while running a watcher.'') w)"
    if "\<not> flushing w \<and> insideRun w"
    using that by (simp add: flush_guard_insideRun)
  show "exec_action ?fl env (Wrapped [ForceFlush m]) w =
        Some (Thrown (Error ''Cannot flush while running a watcher.'') w)" if "\<not> flushing w"
    using that by (simp add: flush_guard_insideRun forceFlush_def)
  {
    assume a: "flushing w \<and> index w < length (queue w) \<and>
      before (watchers env (queue w ! index w)) = None \<and>
      run (watchers env (queue w ! index w)) = ForceFlush m # as"
    let ?r = "queue w ! index w"
    let ?w1 = "emit (EvRun ?r) (w\<lparr>has := (has w)(id_w (watchers env ?r) := None)\<rparr>)"
    have "flushing ?w1" using a by (simp add: emit_def)
    then have "exec ?fl env (ForceFlush m # as) ?w1 =
        Some (Thrown (Error ''Cannot flush while already flushing.'') ?w1)"
      by (simp add: forceFlush_def flush_guard_flushing)
    then show fb: "for_body ?fl env lim w =
        Some (Raise (Error ''Cannot flush while already flushing.'') ?w1)"
      using a by (simp add: for_body_def Let_def)
    have "length (queue w) \<noteq> index w" using a by auto
    then show "flush_while ?fl (Suc k) env lim w =
        Some (Thrown (Error ''Cannot flush while already flushing.'') ?w1)"
      using a fb by simp
  }
  {
    assume a: "flushing w \<and> afterFlushCallbacks w = c # cs \<and> callbacks env c = ForceFlush m # as"
    let ?w1 = "emit (EvCallback c) (w\<lparr>afterFlushCallbacks := cs\<rparr>)"
    have "flushing ?w1" using a by (simp add: emit_def)
    then have "exec ?fl env (ForceFlush m # as) ?w1 =
        Some (Thrown (Error ''Cannot flush while already flushing.'') ?w1)"
      by (simp add: forceFlush_def flush_guard_flushing)
    then show "call_afterFlush ?fl env w =
        Some (Returned
          (emit (EvHandleError (Error ''Cannot flush while already flushing.'')
                   ''Error in an after flush callback.'') ?w1))"
      using a by (simp add: call_afterFlush_def)
  }
  {
    assume a: "flushing w"
    then show "exec ?fl env (ForceFlush m # as) w =
        Some (Thrown (Error ''Cannot flush while already flushing.'') w)"
      by (simp add: forceFlush_def flush_guard_flushing)
    have "flushing (w\<lparr>insideRun := True\<rparr>)" using a by simp
    then have "exec ?fl env (ForceFlush m # as) (w\<lparr>insideRun := True\<rparr>) =
        Some (Thrown (Error ''Cannot flush while already flushing.'') (w\<lparr>insideRun := True\<rparr>))"
      by (simp add: forceFlush_def flush_guard_flushing)
    then show "exec_action ?fl env (Wrapped (ForceFlush m # as)) w =
        Some (Thrown (Error ''Cannot flush while already flushing.'') w)"
      by simp
  }
qed

theorem flush_reentrancy_fails_unchanged_witness:
  "flushing (idle\<lparr>flushing := True, queue := [3]\<rparr>) \<and>
   flushSchedulerQueue 5 demo_env None (idle\<lparr>flushing := True, queue := [3]\<rparr>) =
     Some (Thrown (Error ''Cannot flush while already flushing.'')
             (idle\<lparr>flushing := True, queue := [3]\<rparr>)) \<and>
   \<not> flushing (idle\<lparr>insideRun := True, queue := [3]\<rparr>) \<and>
   insideRun (idle\<lparr>insideRun := True, queue := [3]\<rparr>) \<and>
   flushSchedulerQueue 5 demo_env None (idle\<lparr>insideRun := True, queue := [3]\<rparr>) =
     Some (Thrown (Error ''Cannot flush while running a watcher.'')
             (idle\<lparr>insideRun := True, queue := [3]\<rparr>)) \<and>
   \<not> flushing (idle\<lparr>queue := [3]\<rparr>) \<and>
   exec_action (\<lambda>m' w'. flushSchedulerQueue 5 demo_env m' w') demo_env
       (Wrapped [ForceFlush None]) (idle\<lparr>queue := [3]\<rparr>) =
     Some (Thrown (Error ''Cannot flush while running a watcher.'') (idle\<lparr>queue := [3]\<rparr>)) \<and>
   index (idle\<lparr>flushing := True, queue := [6]\<rparr>) <
     length (queue (idle\<lparr>flushing := True, queue := [6]\<rparr>)) \<and>
   before (watchers demo_env 6) = None \<and> run (watchers demo_env 6) = [ForceFlush None] \<and>
   flush_while (\<lambda>m' w'. flushSchedulerQueue 5 demo_env m' w') (Suc 0) demo_env 100
       (idle\<lparr>flushing := True, queue := [6]\<rparr>) =
     Some (Thrown (Error ''Cannot flush while already flushing.'')
             (idle\<lparr>flushing := True, queue := [6], trace := [EvRun 6]\<rparr>)) \<and>
   afterFlushCallbacks (idle\<lparr>flushing := True, afterFlushCallbacks := [1]\<rparr>) = [1] \<and>
   callbacks demo_env 1 = [ForceFlush None] \<and>
   call_afterFlush (\<lambda>m' w'. flushSchedulerQueue 5 demo_env m' w') demo_env
       (idle\<lparr>flushing := True, afterFlushCallbacks := [1]\<rparr>) =
     Some (Returned (idle\<lparr>flushing := True,
             trace := [EvCallback 1,
                       EvHandleError (Error ''Cannot flush while already flushing.'')
                         ''Error in an after flush callback.'']\<rparr>))"
proof -
  let ?fl = "\<lambda>m' w'. flushSchedulerQueue 5 demo_env m' w'"
  let ?w6 = "idle\<lparr>flushing := True, queue := [6]\<rparr>"
  let ?wc = "idle\<lparr>flushing := True, afterFlushCallbacks := [1]\<rparr>"
  have d: "before (watchers demo_env 6) = None" "run (watchers demo_env 6) = [ForceFlush None]"
    "callbacks demo_env 1 = [ForceFlush None]" "id_w (watchers demo_env 6) = 6"
    by (simp_all add: demo_env_def job_def)
  have q: "queue ?w6 ! index ?w6 = 6" "index ?w6 < length (queue ?w6)" "flushing ?w6"
    "flushing ?wc" "afterFlushCallbacks ?wc = [1]"
    by (simp_all add: idle_def)
  have e6: "emit (EvRun 6) (?w6\<lparr>has := (has ?w6)(6 := None)\<rparr>) =
      idle\<lparr>flushing := True, queue := [6], trace := [EvRun 6]\<rparr>"
    by (simp add: emit_def idle_def)
  have ec: "emit (EvHandleError (Error ''Cannot flush while already flushing.'')
                   ''Error in an after flush callback.'')
             (emit (EvCallback 1) (?wc\<lparr>afterFlushCallbacks := []\<rparr>)) =
      idle\<lparr>flushing := True,
             trace := [EvCallback 1,
                       EvHandleError (Error ''Cannot flush while already flushing.'')
                         ''Error in an after flush callback.'']\<rparr>"
    by (simp add: emit_def idle_def)
  from flush_reentrancy_fails_unchanged [of ?w6 5 demo_env None "[]" 100 0 1 "[]"] d q
  have j: "flush_while ?fl (Suc 0) demo_env 100 ?w6 =
     Some (Thrown (Error ''Cannot flush while already flushing.'')
             (idle\<lparr>flushing := True, queue := [6], trace := [EvRun 6]\<rparr>))"
    unfolding q(1) d(4) e6 by blast
  from flush_reentrancy_fails_unchanged [of ?wc 5 demo_env None "[]" 100 0 1 "[]"] d q
  have c: "call_afterFlush ?fl demo_env ?wc =
     Some (Returned (idle\<lparr>flushing := True,
             trace := [EvCallback 1,
                       EvHandleError (Error ''Cannot flush while already flushing.'')
                         ''Error in an after flush callback.'']\<rparr>))"
    unfolding ec by blast
  from flush_reentrancy_fails_unchanged [of "idle\<lparr>flushing := True, queue := [3]\<rparr>" 5 demo_env None]
    flush_reentrancy_fails_unchanged [of "idle\<lparr>insideRun := True, queue := [3]\<rparr>" 5 demo_env None]
    flush_reentrancy_fails_unchanged [of "idle\<lparr>queue := [3]\<rparr>" 5 demo_env None]
  have g: "flushing (idle\<lparr>flushing := True, queue := [3]\<rparr>) \<and>
   flushSchedulerQueue 5 demo_env None (idle\<lparr>flushing := True, queue := [3]\<rparr>) =
     Some (Thrown (Error ''Cannot flush while already flushing.'')
             (idle\<lparr>flushing := True, queue := [3]\<rparr>)) \<and>
   \<not> flushing (idle\<lparr>insideRun := True, queue := [3]\<rparr>) \<and>
   insideRun (idle\<lparr>insideRun := True, queue := [3]\<rparr>) \<and>
   flushSchedulerQueue 5 demo_env None (idle\<lparr>insideRun := True, queue := [3]\<rparr>) =
     Some (Thrown (Error ''Cannot flush while running a watcher.'')
             (idle\<lparr>insideRun := True, queue := [3]\<rparr>)) \<and>
   \<not> flushing (idle\<lparr>queue := [3]\<rparr>) \<and>
   exec_action ?fl demo_env (Wrapped [ForceFlush None]) (idle\<lparr>queue := [3]\<rparr>) =
     Some (Thrown (Error ''Cannot flush while running a watcher.'') (idle\<lparr>queue := [3]\<rparr>))"
    by (simp add: idle_def)
  from g j c d(1-3) q(2,5) show ?thesis by blast
qed

text \<open>
  The error is caught inside the scheduler when the refused call comes from an after-flush
  callback: callback 1 calls \<open>forceFlush\<close> during the flush, the error goes to
  \<open>handleError\<close>, and the flush returns.
\<close>

theorem flush_reentrancy_caught_counterexample:
  "script 5 demo_env [AfterFlush 1, ForceFlush None] idle =
     Some (Returned (world_of (the (script 5 demo_env [AfterFlush 1, ForceFlush None] idle)))) \<and>
   trace (world_of (the (script 5 demo_env [AfterFlush 1, ForceFlush None] idle))) =
     [EvCallback 1,
      EvHandleError (Error ''Cannot flush while already flushing.'')
        ''Error in an after flush callback.'']"
proof -
  have "case script 5 demo_env [AfterFlush 1, ForceFlush None] idle of
          Some (Returned w') \<Rightarrow> trace w' = [EvCallback 1,
             EvHandleError (Error ''Cannot flush while already flushing.'')
               ''Error in an after flush callback.'']
        | _ \<Rightarrow> False"
    by code_simp
  then show ?thesis by (auto split: option.splits result.splits)
qed

subsection \<open>resetSchedulerState\<close>

text \<open>
  C7. \<open>resetSchedulerState\<close>: when the cursor is at the end of the queue, the queue, the
  activated queue and the cursor are emptied; otherwise the entries before the cursor are
  dropped, the entries from the cursor on stay as they are, and the cursor is 0. In both
  cases \<open>has\<close> is empty afterwards, also for the ids of entries still in the queue, so
  that a \<open>queueWatcher\<close> of such a watcher appends it once more.
\<close>

theorem reset_scheduler_state:
  "(index w = length (queue w) \<longrightarrow>
      queue (resetSchedulerState env w) = [] \<and>
      activatedChildren (resetSchedulerState env w) = [] \<and>
      index (resetSchedulerState env w) = 0) \<and>
   (index w \<noteq> length (queue w) \<longrightarrow>
      queue (resetSchedulerState env w) = drop (index w) (queue w) \<and>
      activatedChildren (resetSchedulerState env w) = [] \<and>
      index (resetSchedulerState env w) = 0) \<and>
   has (resetSchedulerState env w) = Map.empty \<and>
   \<not> flushing (resetSchedulerState env w) \<and>
   (production env \<or> config_async env \<longrightarrow>
      (\<exists>w'. queueWatcher fl env r (resetSchedulerState env w) = Some (Returned w') \<and>
            queue w' = queue (resetSchedulerState env w) @ [r]))"
  by (auto simp add: resetSchedulerState_def queueWatcher_def requireFlush_def Let_def)

theorem reset_scheduler_state_witness:
  "index (idle\<lparr>queue := [1, 9, 3], index := 1, has := [9 \<mapsto> (), 3 \<mapsto> ()], flushing := True\<rparr>) \<noteq>
     length (queue (idle\<lparr>queue := [1, 9, 3], index := 1, has := [9 \<mapsto> (), 3 \<mapsto> ()], flushing := True\<rparr>)) \<and>
   queue (resetSchedulerState demo_env
     (idle\<lparr>queue := [1, 9, 3], index := 1, has := [9 \<mapsto> (), 3 \<mapsto> ()], flushing := True\<rparr>)) = [9, 3] \<and>
   index (resetSchedulerState demo_env
     (idle\<lparr>queue := [1, 9, 3], index := 1, has := [9 \<mapsto> (), 3 \<mapsto> ()], flushing := True\<rparr>)) = 0 \<and>
   has (resetSchedulerState demo_env
     (idle\<lparr>queue := [1, 9, 3], index := 1, has := [9 \<mapsto> (), 3 \<mapsto> ()], flushing := True\<rparr>)) 3 = None \<and>
   config_async demo_env \<and>
   queue (world_of (the (queueWatcher (\<lambda>m' w'. flushSchedulerQueue 5 demo_env m' w') demo_env 3
     (resetSchedulerState demo_env
       (idle\<lparr>queue := [1, 9, 3], index := 1, has := [9 \<mapsto> (), 3 \<mapsto> ()], flushing := True\<rparr>))))) = [9, 3, 3] \<and>
   index (idle\<lparr>queue := [1, 3], index := 2\<rparr>) = length (queue (idle\<lparr>queue := [1, 3], index := 2\<rparr>)) \<and>
   queue (resetSchedulerState demo_env (idle\<lparr>queue := [1, 3], index := 2\<rparr>)) = []"
  using reset_scheduler_state [of "idle\<lparr>queue := [1, 9, 3], index := 1, has := [9 \<mapsto> (), 3 \<mapsto> ()], flushing := True\<rparr>"
      demo_env "\<lambda>m' w'. flushSchedulerQueue 5 demo_env m' w'" 3]
    reset_scheduler_state [of "idle\<lparr>queue := [1, 3], index := 2\<rparr>"
      demo_env "\<lambda>m' w'. flushSchedulerQueue 5 demo_env m' w'" 3]
  by (auto simp add: idle_def demo_env_def)

subsection \<open>requireFlush\<close>

text \<open>
  C9, as the code has it. \<open>requireFlush\<close> does nothing when \<open>waiting\<close> is set.
  Otherwise it sets \<open>waiting\<close> and calls \<open>flushSchedulerQueue\<close> at once when the build
  is not a production build and \<open>config.async\<close> is off; in every other case it hands
  \<open>flushSchedulerQueue\<close> to \<open>nextTick\<close>. \<open>resetSchedulerState\<close> clears \<open>waiting\<close>.
\<close>

theorem requireFlush_cases:
  "(waiting w \<longrightarrow> requireFlush fl env w = Some (Returned w)) \<and>
   (\<not> waiting w \<and> \<not> production env \<and> \<not> config_async env \<longrightarrow>
      requireFlush fl env w = fl None (w\<lparr>waiting := True\<rparr>)) \<and>
   (\<not> waiting w \<and> (production env \<or> config_async env) \<longrightarrow>
      requireFlush fl env w =
        Some (Returned (w\<lparr>waiting := True, scheduled := Suc (scheduled w)\<rparr>))) \<and>
   \<not> waiting (resetSchedulerState env w)"
  by (auto simp add: requireFlush_def resetSchedulerState_def Let_def)

theorem requireFlush_cases_witness:
  "waiting (idle\<lparr>waiting := True\<rparr>) \<and>
   requireFlush (\<lambda>m' w'. flushSchedulerQueue 5 demo_env m' w') demo_env (idle\<lparr>waiting := True\<rparr>) =
     Some (Returned (idle\<lparr>waiting := True\<rparr>)) \<and>
   \<not> waiting (idle\<lparr>queue := [3]\<rparr>) \<and> \<not> production (demo_env\<lparr>config_async := False\<rparr>) \<and>
   \<not> config_async (demo_env\<lparr>config_async := False\<rparr>) \<and>
   requireFlush (\<lambda>m' w'. flushSchedulerQueue 5 (demo_env\<lparr>config_async := False\<rparr>) m' w')
       (demo_env\<lparr>config_async := False\<rparr>) (idle\<lparr>queue := [3]\<rparr>) =
     flushSchedulerQueue 5 (demo_env\<lparr>config_async := False\<rparr>) None (idle\<lparr>queue := [3], waiting := True\<rparr>) \<and>
   config_async demo_env \<and>
   requireFlush (\<lambda>m' w'. flushSchedulerQueue 5 demo_env m' w') demo_env (idle\<lparr>queue := [3]\<rparr>) =
     Some (Returned (idle\<lparr>queue := [3], waiting := True, scheduled := 1\<rparr>)) \<and>
   \<not> waiting (resetSchedulerState demo_env (idle\<lparr>waiting := True\<rparr>))"
  using requireFlush_cases [of "idle\<lparr>waiting := True\<rparr>" "\<lambda>m' w'. flushSchedulerQueue 5 demo_env m' w'" demo_env]
    requireFlush_cases [of "idle\<lparr>queue := [3]\<rparr>"
       "\<lambda>m' w'. flushSchedulerQueue 5 (demo_env\<lparr>config_async := False\<rparr>) m' w'" "demo_env\<lparr>config_async := False\<rparr>"]
    requireFlush_cases [of "idle\<lparr>queue := [3]\<rparr>" "\<lambda>m' w'. flushSchedulerQueue 5 demo_env m' w'" demo_env]
  by (simp add: idle_def demo_env_def)

text \<open>
  In a production build with \<open>config.async\<close> off the flush is not run at once: it is
  handed to \<open>nextTick\<close>, and watcher 3, which an immediate flush would run, has not run.
\<close>

theorem requireFlush_production_counterexample:
  "\<not> config_async (demo_env\<lparr>config_async := False, production := True\<rparr>) \<and>
   \<not> waiting (idle\<lparr>queue := [3]\<rparr>) \<and>
   requireFlush (\<lambda>m' w'. flushSchedulerQueue 5 (demo_env\<lparr>config_async := False, production := True\<rparr>) m' w')
       (demo_env\<lparr>config_async := False, production := True\<rparr>) (idle\<lparr>queue := [3]\<rparr>) =
     Some (Returned (idle\<lparr>queue := [3], waiting := True, scheduled := 1\<rparr>)) \<and>
   trace (idle\<lparr>queue := [3], waiting := True, scheduled := 1\<rparr>) = [] \<and>
   ran (trace (world_of (the (flushSchedulerQueue 5 (demo_env\<lparr>config_async := False, production := True\<rparr>) None
       (idle\<lparr>queue := [3], waiting := True\<rparr>))))) = [3]"
  by (simp add: requireFlush_def idle_def demo_env_def, code_simp)

subsection \<open>queueWatcher during a flush\<close>

text \<open>The backward scan: where it stops and what it has passed.\<close>

declare scan_back.simps [simp del]

lemma scan_back_le: "scan_back env q idx wid i \<le> i"
proof (induction env q idx wid i rule: scan_back.induct)
  case (1 env q idx wid i)
  then show ?case by (subst scan_back.simps) (auto split: if_splits)
qed

lemma scan_back_ge: "int idx \<le> i \<Longrightarrow> int idx \<le> scan_back env q idx wid i"
proof (induction env q idx wid i rule: scan_back.induct)
  case (1 env q idx wid i)
  then show ?case by (subst scan_back.simps) (auto split: if_splits)
qed

lemma scan_back_below: "i \<le> int idx \<Longrightarrow> scan_back env q idx wid i = i"
  by (subst scan_back.simps) simp

lemma scan_back_passed:
  "scan_back env q idx wid i < j \<Longrightarrow> j \<le> i \<Longrightarrow> wid < id_w (watchers env (q ! nat j))"
proof (induction env q idx wid i rule: scan_back.induct)
  case (1 env q idx wid i)
  show ?case
  proof (cases "i > int idx \<and> id_w (watchers env (q ! nat i)) > wid")
    case True
    then have eq: "scan_back env q idx wid i = scan_back env q idx wid (i - 1)"
      by (subst scan_back.simps) simp
    show ?thesis
    proof (cases "j = i")
      case True
      with \<open>int idx < i \<and> wid < id_w (watchers env (q ! nat i))\<close> show ?thesis by simp
    next
      case False
      with "1.prems" have "j \<le> i - 1" by simp
      with "1.IH" True "1.prems" eq show ?thesis by simp
    qed
  next
    case False
    then have "scan_back env q idx wid i = i"
      by (subst scan_back.simps) auto
    with "1.prems" show ?thesis by simp
  qed
qed

lemma scan_back_stop:
  "int idx < scan_back env q idx wid i \<Longrightarrow>
   id_w (watchers env (q ! nat (scan_back env q idx wid i))) \<le> wid"
proof (induction env q idx wid i rule: scan_back.induct)
  case (1 env q idx wid i)
  show ?case
  proof (cases "i > int idx \<and> id_w (watchers env (q ! nat i)) > wid")
    case True
    then have eq: "scan_back env q idx wid i = scan_back env q idx wid (i - 1)"
      by (subst scan_back.simps) simp
    with "1.IH" True "1.prems" show ?thesis by simp
  next
    case False
    then have "scan_back env q idx wid i = i"
      by (subst scan_back.simps) auto
    with "1.prems" False show ?thesis by auto
  qed
qed

lemma insert_position_bounds:
  assumes "index w \<le> length (queue w)"
  shows "index w \<le> insert_position env w r" "insert_position env w r \<le> length (queue w)"
    "index w < length (queue w) \<Longrightarrow> index w < insert_position env w r"
    "index w = length (queue w) \<Longrightarrow> insert_position env w r = index w"
proof -
  let ?s = "scan_back env (queue w) (index w) (id_w (watchers env r)) (int (length (queue w)) - 1)"
  have le: "?s \<le> int (length (queue w)) - 1" by (rule scan_back_le)
  show "insert_position env w r \<le> length (queue w)"
    using le by (simp add: insert_position_def)
  show "index w < insert_position env w r" if "index w < length (queue w)"
  proof -
    from that have "int (index w) \<le> int (length (queue w)) - 1" by simp
    then have "int (index w) \<le> ?s" by (rule scan_back_ge)
    then show ?thesis by (simp add: insert_position_def)
  qed
  show eq: "insert_position env w r = index w" if "index w = length (queue w)"
  proof -
    from that have "int (length (queue w)) - 1 \<le> int (index w)" by simp
    then have "?s = int (length (queue w)) - 1" by (rule scan_back_below)
    with that show ?thesis by (simp add: insert_position_def)
  qed
  show "index w \<le> insert_position env w r"
  proof (cases "index w < length (queue w)")
    case True
    then have "int (index w) \<le> int (length (queue w)) - 1" by simp
    then have "int (index w) \<le> ?s" by (rule scan_back_ge)
    then show ?thesis by (simp add: insert_position_def)
  next
    case False
    with assms have "index w = length (queue w)" by simp
    then show ?thesis using eq by simp
  qed
qed

lemma insert_position_after:
  assumes "insert_position env w r \<le> j" "j < length (queue w)"
  shows "id_w (watchers env r) < id_w (watchers env (queue w ! j))"
proof -
  let ?s = "scan_back env (queue w) (index w) (id_w (watchers env r)) (int (length (queue w)) - 1)"
  from assms have "?s < int j" "int j \<le> int (length (queue w)) - 1"
    by (simp_all add: insert_position_def)
  from scan_back_passed [OF this] show ?thesis by simp
qed

lemma insert_position_before:
  assumes "Suc (index w) < insert_position env w r"
  shows "id_w (watchers env (queue w ! (insert_position env w r - 1))) \<le> id_w (watchers env r)"
proof -
  let ?s = "scan_back env (queue w) (index w) (id_w (watchers env r)) (int (length (queue w)) - 1)"
  from assms have "int (index w) < ?s" by (simp add: insert_position_def)
  from scan_back_stop [OF this] have "id_w (watchers env (queue w ! nat ?s)) \<le> id_w (watchers env r)" .
  moreover have "nat ?s = insert_position env w r - 1"
    using assms by (simp add: insert_position_def)
  ultimately show ?thesis by simp
qed

lemma last_take_nth: "0 < p \<Longrightarrow> p \<le> length q \<Longrightarrow> last (take p q) = q ! (p - 1)"
proof -
  assume a: "0 < p" "p \<le> length q"
  then have ne: "take p q \<noteq> []" by auto
  have "last (take p q) = take p q ! (length (take p q) - 1)"
    using ne by (rule last_conv_nth)
  also have "length (take p q) = p" using a by simp
  also have "take p q ! (p - 1) = q ! (p - 1)" using a by (intro nth_take) simp
  finally show ?thesis .
qed

lemma splice_keeps_tail_sorted:
  assumes le: "index w \<le> length (queue w)"
    and srt: "sorted (map (\<lambda>x. id_w (watchers env x)) (drop (Suc (index w)) (queue w)))"
  shows "sorted (map (\<lambda>x. id_w (watchers env x))
           (drop (Suc (index w)) (splice_in (insert_position env w r) r (queue w))))"
proof (cases "index w < length (queue w)")
  case False
  with le have "insert_position env w r = index w" "index w = length (queue w)"
    using insert_position_bounds(4) by auto
  then show ?thesis by (simp add: splice_in_def)
next
  case True
  let ?p = "insert_position env w r"
  let ?f = "\<lambda>x. id_w (watchers env x)"
  let ?q = "queue w"
  from True le have p: "index w < ?p" "?p \<le> length ?q"
    using insert_position_bounds by auto
  let ?A = "drop (Suc (index w)) (take ?p ?q)"
  let ?B = "drop ?p ?q"
  have split: "drop (Suc (index w)) ?q = ?A @ ?B"
    using p by (metis Suc_leI append_take_drop_id drop_append length_take min.absorb2 diff_is_0_eq' drop0)
  have res: "drop (Suc (index w)) (splice_in ?p r ?q) = ?A @ [r] @ ?B"
    using p by (simp add: splice_in_def)
  from srt split have sAB: "sorted (map ?f ?A @ map ?f ?B)" by simp
  then have sA: "sorted (map ?f ?A)" and sB: "sorted (map ?f ?B)"
    by (simp_all add: sorted_append)
  have B: "\<forall>y \<in> set ?B. ?f r < ?f y"
  proof
    fix y assume "y \<in> set ?B"
    then obtain j where j: "j < length ?B" "y = ?B ! j" by (metis in_set_conv_nth)
    then have "y = ?q ! (?p + j)" "?p + j < length ?q" by (simp_all add: add.commute)
    with insert_position_after [of env w r "?p + j"] show "?f r < ?f y" by simp
  qed
  have A: "\<forall>x \<in> set ?A. ?f x \<le> ?f r"
  proof (cases "?A = []")
    case True then show ?thesis by simp
  next
    case False
    then have gt: "Suc (index w) < ?p" using p by simp
    have lastA: "last ?A = ?q ! (?p - 1)"
    proof -
      have "last ?A = last (take ?p ?q)" using gt p by (simp add: last_drop)
      also have "\<dots> = ?q ! (?p - 1)" using gt p by (intro last_take_nth) auto
      finally show ?thesis .
    qed
    have "?f (last ?A) \<le> ?f r" using insert_position_before [OF gt] lastA by simp
    moreover have "\<forall>x \<in> set ?A. ?f x \<le> ?f (last ?A)"
    proof
      fix x assume "x \<in> set ?A"
      then obtain j where j: "j < length ?A" "x = ?A ! j" by (metis in_set_conv_nth)
      have "map ?f ?A ! j \<le> map ?f ?A ! (length ?A - 1)"
        using sA j by (intro sorted_nth_mono) auto
      with j False show "?f x \<le> ?f (last ?A)" by (simp add: last_conv_nth)
    qed
    ultimately show ?thesis by fastforce
  qed
  show ?thesis
    unfolding res using sA sB A B sAB
    by (auto simp add: sorted_append less_imp_le)
qed

text \<open>
  C3, as the code has it. A \<open>queueWatcher\<close> during a flush, for an id that \<open>has\<close> does
  not hold, splices the watcher in at \<open>insert_position\<close>, the position after the backward
  scan. That position is never before the cursor and never past the end of the queue. It
  is strictly after the cursor when the cursor is on an entry (a watcher is running); when
  the cursor is at the end of the queue (the call comes from an after-flush callback) it is
  the cursor itself. If the entries after the cursor were sorted by id, they still are.
  Watcher 5, which queues watcher 2 when it runs, is followed by watcher 2 in the same
  flush.
\<close>

theorem queueWatcher_during_flush:
  assumes "flushing w" and "has w (id_w (watchers env r)) = None"
    and "index w \<le> length (queue w)"
  shows "(\<exists>res. queueWatcher (\<lambda>m' w'. flushSchedulerQueue n env m' w') env r w = Some res \<and>
           queue (world_of res) = splice_in (insert_position env w r) r (queue w) \<and>
           index (world_of res) = index w \<and>
           has (world_of res) (id_w (watchers env r)) = Some () \<and>
           (sorted (map (\<lambda>x. id_w (watchers env x)) (drop (Suc (index w)) (queue w))) \<longrightarrow>
            sorted (map (\<lambda>x. id_w (watchers env x)) (drop (Suc (index w)) (queue (world_of res)))))) \<and>
         index w \<le> insert_position env w r \<and>
         insert_position env w r \<le> length (queue w) \<and>
         (index w < length (queue w) \<longrightarrow> index w < insert_position env w r) \<and>
         (index w = length (queue w) \<longrightarrow> insert_position env w r = index w) \<and>
         ran (trace (world_of (the (script 5 demo_env [QueueWatcher 5, ForceFlush None] idle)))) = [5, 2]"
proof -
  let ?fl = "\<lambda>m' w'. flushSchedulerQueue n env m' w'"
  let ?w2 = "w\<lparr>has := (has w)(id_w (watchers env r) \<mapsto> ()),
               queue := splice_in (insert_position env w r) r (queue w)\<rparr>"
  have ip: "insert_position env (w\<lparr>has := (has w)(id_w (watchers env r) \<mapsto> ())\<rparr>) r = insert_position env w r"
    by (simp add: insert_position_def)
  have qw: "queueWatcher ?fl env r w = requireFlush ?fl env ?w2"
    using assms(1,2) by (simp add: queueWatcher_def Let_def ip)
  have "\<exists>res. requireFlush ?fl env ?w2 = Some res \<and> queue (world_of res) = queue ?w2 \<and>
          index (world_of res) = index ?w2 \<and> has (world_of res) = has ?w2"
    using assms(1) by (auto simp add: requireFlush_def Let_def flush_guard_flushing)
  then obtain res where res: "queueWatcher ?fl env r w = Some res"
      "queue (world_of res) = splice_in (insert_position env w r) r (queue w)"
      "index (world_of res) = index w" "has (world_of res) (id_w (watchers env r)) = Some ()"
    using qw by auto
  have scen: "ran (trace (world_of (the (script 5 demo_env [QueueWatcher 5, ForceFlush None] idle)))) = [5, 2]"
    by code_simp
  show ?thesis
    using res splice_keeps_tail_sorted [OF assms(3), of env r] insert_position_bounds [OF assms(3), of env r] scen
    by auto
qed

theorem queueWatcher_during_flush_witness:
  "flushing (idle\<lparr>queue := [1, 5, 6, 8], index := 1, flushing := True, waiting := True\<rparr>) \<and>
   has (idle\<lparr>queue := [1, 5, 6, 8], index := 1, flushing := True, waiting := True\<rparr>) (id_w (watchers demo_env 7)) = None \<and>
   index (idle\<lparr>queue := [1, 5, 6, 8], index := 1, flushing := True, waiting := True\<rparr>) \<le>
     length (queue (idle\<lparr>queue := [1, 5, 6, 8], index := 1, flushing := True, waiting := True\<rparr>)) \<and>
   insert_position demo_env (idle\<lparr>queue := [1, 5, 6, 8], index := 1, flushing := True, waiting := True\<rparr>) 7 = 3 \<and>
   queue (world_of (the (queueWatcher (\<lambda>m' w'. flushSchedulerQueue 5 demo_env m' w') demo_env 7
       (idle\<lparr>queue := [1, 5, 6, 8], index := 1, flushing := True, waiting := True\<rparr>)))) = [1, 5, 6, 7, 8] \<and>
   sorted (map (\<lambda>x. id_w (watchers demo_env x)) (drop (Suc 1) [1, 5, 6, 8])) \<and>
   insert_position demo_env (idle\<lparr>queue := [1, 5, 6, 8], index := 1, flushing := True, waiting := True\<rparr>) 2 = 2 \<and>
   queue (world_of (the (queueWatcher (\<lambda>m' w'. flushSchedulerQueue 5 demo_env m' w') demo_env 2
       (idle\<lparr>queue := [1, 5, 6, 8], index := 1, flushing := True, waiting := True\<rparr>)))) = [1, 5, 2, 6, 8]"
proof -
  let ?w = "idle\<lparr>queue := [1, 5, 6, 8], index := 1, flushing := True, waiting := True\<rparr>"
  have h: "flushing ?w" "has ?w (id_w (watchers demo_env 7)) = None" "has ?w (id_w (watchers demo_env 2)) = None"
    "index ?w \<le> length (queue ?w)"
    by (simp_all add: idle_def)
  have p: "insert_position demo_env ?w 7 = 3" "insert_position demo_env ?w 2 = 2" by code_simp+
  have s: "sorted (map (\<lambda>x. id_w (watchers demo_env x)) (drop (Suc 1) [1, 5, 6, 8]))"
    by (simp add: demo_env_def job_def)
  have q: "queue ?w = [1, 5, 6, 8]" by simp
  from queueWatcher_during_flush [OF h(1) h(2) h(4), of 5]
    queueWatcher_during_flush [OF h(1) h(3) h(4), of 5]
  show ?thesis using h p s unfolding p q by (auto simp add: splice_in_def)
qed

text \<open>
  The claim's "strictly greater than the cursor" fails for a call from an after-flush
  callback: callback 0 queues watcher 4 when the queue is empty and the cursor is 0, and
  watcher 4 goes to position 0. The state is the one the flush of
  \<open>[AfterFlush 0, ForceFlush None]\<close> is in when it calls the callback.
\<close>

theorem queueWatcher_at_cursor_counterexample:
  "flushing (idle\<lparr>waiting := True, scheduled := 1, currentFlushTimestamp := 1, flushing := True,
                  trace := [EvCallback 0]\<rparr>) \<and>
   has (idle\<lparr>waiting := True, scheduled := 1, currentFlushTimestamp := 1, flushing := True,
             trace := [EvCallback 0]\<rparr>) (id_w (watchers demo_env 4)) = None \<and>
   index (idle\<lparr>waiting := True, scheduled := 1, currentFlushTimestamp := 1, flushing := True,
               trace := [EvCallback 0]\<rparr>) = 0 \<and>
   insert_position demo_env
     (idle\<lparr>waiting := True, scheduled := 1, currentFlushTimestamp := 1, flushing := True,
           trace := [EvCallback 0]\<rparr>) 4 = 0 \<and>
   queueWatcher (\<lambda>m' w'. flushSchedulerQueue 5 demo_env m' w') demo_env 4
     (idle\<lparr>waiting := True, scheduled := 1, currentFlushTimestamp := 1, flushing := True,
           trace := [EvCallback 0]\<rparr>) =
     Some (Returned (idle\<lparr>waiting := True, scheduled := 1, currentFlushTimestamp := 1,
                          flushing := True, trace := [EvCallback 0],
                          has := [4 \<mapsto> ()], queue := [4]\<rparr>)) \<and>
   trace (world_of (the (script 5 demo_env [AfterFlush 0, ForceFlush None] idle))) =
     [EvCallback 0, EvRun 4, EvUpdated 4]"
proof -
  have a: "trace (world_of (the (script 5 demo_env [AfterFlush 0, ForceFlush None] idle))) =
     [EvCallback 0, EvRun 4, EvUpdated 4]" by code_simp
  have b: "insert_position demo_env
     (idle\<lparr>waiting := True, scheduled := 1, currentFlushTimestamp := 1, flushing := True,
           trace := [EvCallback 0]\<rparr>) 4 = 0" by code_simp
  show ?thesis unfolding a b
    by (simp add: idle_def demo_env_def job_def queueWatcher_def requireFlush_def insert_position_def
        splice_in_def scan_back.simps)
qed

subsection \<open>A flush of quiet watchers\<close>

lemma ran_append: "ran (xs @ ys) = ran xs @ ran ys"
  by (induction xs rule: ran.induct) simp_all

lemma updated_append: "updated (xs @ ys) = updated xs @ updated ys"
  by (induction xs rule: updated.induct) simp_all

lemma warned_append: "warned (xs @ ys) = warned xs @ warned ys"
  by (induction xs rule: warned.induct) simp_all

lemma exec_quiet:
  "quiets as \<Longrightarrow> \<exists>V A. exec fl env as w = Some (Returned (w\<lparr>vms := V, activatedChildren := A\<rparr>))"
  "quiet a \<Longrightarrow> \<exists>V A. exec_action fl env a w = Some (Returned (w\<lparr>vms := V, activatedChildren := A\<rparr>))"
proof (induction fl env as w and fl env a w rule: exec_exec_action.induct)
  case (1 fl env w)
  have "w = w\<lparr>vms := vms w, activatedChildren := activatedChildren w\<rparr>" by simp
  then show ?case by (metis exec.simps(1))
next
  case (2 fl env a as w)
  then obtain V A where a: "exec_action fl env a w = Some (Returned (w\<lparr>vms := V, activatedChildren := A\<rparr>))"
    by auto
  from 2 a obtain V' A' where
    "exec fl env as (w\<lparr>vms := V, activatedChildren := A\<rparr>) =
       Some (Returned (w\<lparr>vms := V, activatedChildren := A\<rparr>\<lparr>vms := V', activatedChildren := A'\<rparr>))"
    by (metis quiets.simps(2))
  with a show ?case by auto
next
  case (4 fl env v w)
  show ?case by (auto simp add: queueActivatedComponent_def)
next
  case (7 fl env body w)
  then obtain V A where
    "exec fl env body (w\<lparr>insideRun := True\<rparr>) =
       Some (Returned (w\<lparr>insideRun := True\<rparr>\<lparr>vms := V, activatedChildren := A\<rparr>))"
    by auto
  then have "exec_action fl env (Wrapped body) w = Some (Returned (w\<lparr>vms := V, activatedChildren := A\<rparr>))"
    by simp
  then show ?case by blast
next
  case (9 fl env v c w)
  have "w\<lparr>vms := (vms w)(v := c)\<rparr> = w\<lparr>vms := (vms w)(v := c), activatedChildren := activatedChildren w\<rparr>"
    by simp
  then show ?case by (metis exec_action.simps(7))
qed simp_all

lemma for_body_quiet:
  assumes "index w < length (queue w)" and "quiet_watcher env (queue w ! index w)"
  shows "\<exists>V A evs. for_body fl env m w =
           Some (Next (w\<lparr>has := (has w)(id_w (watchers env (queue w ! index w)) := None),
                          trace := trace w @ evs, vms := V, activatedChildren := A\<rparr>)) \<and>
           ran evs = [queue w ! index w] \<and> warned evs = [] \<and> updated evs = []"
proof -
  let ?r = "queue w ! index w"
  let ?wt = "watchers env ?r"
  from assms(2) have qr: "quiets (run ?wt)"
    and qb: "\<And>b. before ?wt = Some b \<Longrightarrow> quiets b"
    by (auto simp add: quiet_watcher_def split: option.splits)
  obtain bev where bev: "bev = (case before ?wt of None \<Rightarrow> [] | Some b \<Rightarrow> [EvBefore ?r])" by simp
  have "\<exists>V A. (case before ?wt of None \<Rightarrow> Some (Returned w)
               | Some b \<Rightarrow> exec fl env b (emit (EvBefore ?r) w)) =
          Some (Returned (w\<lparr>trace := trace w @ bev, vms := V, activatedChildren := A\<rparr>))"
  proof (cases "before ?wt")
    case None
    have "w = w\<lparr>trace := trace w @ [], vms := vms w, activatedChildren := activatedChildren w\<rparr>" by simp
    with None bev show ?thesis by (metis option.simps(4))
  next
    case (Some b)
    from exec_quiet(1) [OF qb [OF Some], of fl env "emit (EvBefore ?r) w"] Some bev
    show ?thesis by (auto simp add: emit_def)
  qed
  then obtain V A where b: "(case before ?wt of None \<Rightarrow> Some (Returned w)
               | Some b \<Rightarrow> exec fl env b (emit (EvBefore ?r) w)) =
          Some (Returned (w\<lparr>trace := trace w @ bev, vms := V, activatedChildren := A\<rparr>))" by blast
  let ?w1 = "w\<lparr>trace := trace w @ bev, vms := V, activatedChildren := A\<rparr>"
  let ?w1' = "emit (EvRun ?r) (?w1\<lparr>has := (has ?w1)(id_w ?wt := None)\<rparr>)"
  from exec_quiet(1) [OF qr, of fl env ?w1'] obtain V' A' where
    r: "exec fl env (run ?wt) ?w1' = Some (Returned (?w1'\<lparr>vms := V', activatedChildren := A'\<rparr>))" by blast
  let ?w2 = "?w1'\<lparr>vms := V', activatedChildren := A'\<rparr>"
  have c: "check_circular env m ?r ?w2 = Next ?w2"
    by (simp add: check_circular_def Let_def emit_def)
  have "for_body fl env m w = Some (Next ?w2)"
    unfolding for_body_def Let_def b using r c by simp
  moreover have "?w2 = w\<lparr>has := (has w)(id_w ?wt := None), trace := trace w @ (bev @ [EvRun ?r]),
                         vms := V', activatedChildren := A'\<rparr>"
    by (simp add: emit_def)
  ultimately have "for_body fl env m w = Some (Next (w\<lparr>has := (has w)(id_w ?wt := None),
       trace := trace w @ (bev @ [EvRun ?r]), vms := V', activatedChildren := A'\<rparr>))"
    by simp
  moreover have "ran (bev @ [EvRun ?r]) = [?r]" "warned (bev @ [EvRun ?r]) = []" "updated (bev @ [EvRun ?r]) = []"
    using bev by (simp_all add: ran_append warned_append updated_append split: option.splits)
  ultimately show ?thesis by blast
qed

lemma flush_for_quiet:
  assumes "\<forall>r \<in> set (drop (index w) (queue w)). quiet_watcher env r"
    and "length (queue w) - index w \<le> k"
  shows "\<exists>H V A evs. flush_for fl k env m w =
           Some (Returned (w\<lparr>has := H, trace := trace w @ evs, vms := V, activatedChildren := A,
                              index := max (index w) (length (queue w))\<rparr>)) \<and>
           ran evs = drop (index w) (queue w) \<and> warned evs = [] \<and> updated evs = []"
  using assms
proof (induction k arbitrary: w)
  case 0
  then have *: "\<not> index w < length (queue w)" by simp
  then have "flush_for fl 0 env m w = Some (Returned (w\<lparr>has := has w, trace := trace w @ [], vms := vms w,
      activatedChildren := activatedChildren w, index := max (index w) (length (queue w))\<rparr>))"
    by (simp add: max_def)
  moreover have "ran [] = drop (index w) (queue w)" using * by simp
  ultimately show ?case using warned.simps(1) updated.simps(1) by blast
next
  case (Suc k)
  show ?case
  proof (cases "index w < length (queue w)")
    case False
    then have "flush_for fl (Suc k) env m w = Some (Returned (w\<lparr>has := has w, trace := trace w @ [], vms := vms w,
      activatedChildren := activatedChildren w, index := max (index w) (length (queue w))\<rparr>))"
      by (simp add: max_def)
    moreover have "ran [] = drop (index w) (queue w)" using False by simp
    ultimately show ?thesis using warned.simps(1) updated.simps(1) by blast
  next
    case True
    let ?r = "queue w ! index w"
    from True have "?r \<in> set (drop (index w) (queue w))"
      by (metis Cons_nth_drop_Suc list.set_intros(1))
    with Suc.prems have "quiet_watcher env ?r" by blast
    from for_body_quiet [OF True this, of fl m] obtain V A evs where
      fb: "for_body fl env m w =
           Some (Next (w\<lparr>has := (has w)(id_w (watchers env ?r) := None),
                          trace := trace w @ evs, vms := V, activatedChildren := A\<rparr>))"
      and ev: "ran evs = [?r]" "warned evs = []" "updated evs = []" by blast
    let ?w1 = "w\<lparr>has := (has w)(id_w (watchers env ?r) := None),
                  trace := trace w @ evs, vms := V, activatedChildren := A\<rparr>\<lparr>index := Suc (index w)\<rparr>"
    have p1: "\<forall>r \<in> set (drop (index ?w1) (queue ?w1)). quiet_watcher env r"
      using Suc.prems(1) set_drop_subset_set_drop [of "index w" "Suc (index w)" "queue w"] by auto
    have p2: "length (queue ?w1) - index ?w1 \<le> k" using Suc.prems(2) by simp
    from Suc.IH [OF p1 p2] obtain H V' A' evs' where
      ih: "flush_for fl k env m ?w1 =
           Some (Returned (?w1\<lparr>has := H, trace := trace ?w1 @ evs', vms := V', activatedChildren := A',
                              index := max (index ?w1) (length (queue ?w1))\<rparr>))"
      and ev': "ran evs' = drop (index ?w1) (queue ?w1)" "warned evs' = []" "updated evs' = []" by blast
    have "flush_for fl (Suc k) env m w = flush_for fl k env m ?w1"
      using True fb by simp
    moreover have "?w1\<lparr>has := H, trace := trace ?w1 @ evs', vms := V', activatedChildren := A',
                              index := max (index ?w1) (length (queue ?w1))\<rparr> =
        w\<lparr>has := H, trace := trace w @ (evs @ evs'), vms := V', activatedChildren := A',
                              index := max (index w) (length (queue w))\<rparr>"
      using True by (simp add: max_def)
    ultimately have "flush_for fl (Suc k) env m w = Some (Returned (w\<lparr>has := H, trace := trace w @ (evs @ evs'), vms := V', activatedChildren := A',
                              index := max (index w) (length (queue w))\<rparr>))"
      using ih by simp
    moreover have "ran (evs @ evs') = drop (index w) (queue w)"
      using ev ev' True by (simp add: ran_append Cons_nth_drop_Suc)
    moreover have "warned (evs @ evs') = []" "updated (evs @ evs') = []"
      using ev ev' by (simp_all add: warned_append updated_append)
    ultimately show ?thesis by blast
  qed
qed

lemma call_afterFlush_quiet:
  assumes "afterFlushCallbacks w = f # rest" and "quiets (callbacks env f)"
  shows "\<exists>V A. call_afterFlush fl env w =
           Some (Returned (w\<lparr>afterFlushCallbacks := rest, trace := trace w @ [EvCallback f],
                              vms := V, activatedChildren := A\<rparr>))"
proof -
  let ?w1 = "emit (EvCallback f) (w\<lparr>afterFlushCallbacks := rest\<rparr>)"
  from exec_quiet(1) [OF assms(2), of fl env ?w1] obtain V A where
    "exec fl env (callbacks env f) ?w1 = Some (Returned (?w1\<lparr>vms := V, activatedChildren := A\<rparr>))"
    by blast
  then have "call_afterFlush fl env w =
           Some (Returned (w\<lparr>afterFlushCallbacks := rest, trace := trace w @ [EvCallback f],
                              vms := V, activatedChildren := A\<rparr>))"
    using assms(1) by (simp add: call_afterFlush_def emit_def)
  then show ?thesis by blast
qed

lemma flush_while_quiet:
  assumes "\<forall>r \<in> set (drop (index w) (queue w)). quiet_watcher env r"
    and "\<forall>f \<in> set (afterFlushCallbacks w). quiets (callbacks env f)"
    and "index w \<le> length (queue w)"
    and "length (queue w) - index w + length (afterFlushCallbacks w) \<le> k"
  shows "\<exists>H V A evs. flush_while fl k env m w =
           Some (Returned (w\<lparr>has := H, trace := trace w @ evs, vms := V, activatedChildren := A,
                              index := length (queue w), afterFlushCallbacks := []\<rparr>)) \<and>
           ran evs = drop (index w) (queue w) \<and> warned evs = [] \<and> updated evs = []"
  using assms
proof (induction k arbitrary: w)
  case 0
  then have "length (queue w) - index w = 0 \<and> length (afterFlushCallbacks w) = 0" by linarith
  with 0 have *: "length (queue w) = index w" "afterFlushCallbacks w = []" by simp_all
  then have "flush_while fl 0 env m w = Some (Returned (w\<lparr>has := has w, trace := trace w @ [], vms := vms w,
      activatedChildren := activatedChildren w, index := length (queue w), afterFlushCallbacks := []\<rparr>))"
    by simp
  moreover have "ran [] = drop (index w) (queue w)" using * by simp
  ultimately show ?case using warned.simps(1) updated.simps(1) by blast
next
  case (Suc k)
  show ?case
  proof (cases "length (queue w) \<noteq> index w \<or> afterFlushCallbacks w \<noteq> []")
    case False
    then have *: "length (queue w) = index w" "afterFlushCallbacks w = []" by simp_all
    then have "flush_while fl (Suc k) env m w = Some (Returned (w\<lparr>has := has w, trace := trace w @ [], vms := vms w,
      activatedChildren := activatedChildren w, index := length (queue w), afterFlushCallbacks := []\<rparr>))"
      by simp
    moreover have "ran [] = drop (index w) (queue w)" using * by simp
    ultimately show ?thesis using warned.simps(1) updated.simps(1) by blast
  next
    case True
    have fuel: "length (queue w) - index w \<le> Suc k" using Suc.prems(4) by simp
    from flush_for_quiet [OF Suc.prems(1) fuel, of fl m] obtain H V A evs where
      ff: "flush_for fl (Suc k) env m w =
           Some (Returned (w\<lparr>has := H, trace := trace w @ evs, vms := V, activatedChildren := A,
                              index := max (index w) (length (queue w))\<rparr>))"
      and ev: "ran evs = drop (index w) (queue w)" "warned evs = []" "updated evs = []" by blast
    let ?w1 = "w\<lparr>has := H, trace := trace w @ evs, vms := V, activatedChildren := A,
                  index := length (queue w)\<rparr>"
    have ff': "flush_for fl (Suc k) env m w = Some (Returned ?w1)"
      using ff Suc.prems(3) by (simp add: max_def)
    have "\<exists>V' A' cev rest. call_afterFlush fl env ?w1 =
        Some (Returned (?w1\<lparr>afterFlushCallbacks := rest, trace := trace ?w1 @ cev,
                              vms := V', activatedChildren := A'\<rparr>)) \<and>
        ran cev = [] \<and> warned cev = [] \<and> updated cev = [] \<and>
        length rest = length (afterFlushCallbacks w) - 1 \<and> set rest \<subseteq> set (afterFlushCallbacks w)"
    proof (cases "afterFlushCallbacks w")
      case Nil
      then have "call_afterFlush fl env ?w1 =
        Some (Returned (?w1\<lparr>afterFlushCallbacks := [], trace := trace ?w1 @ [],
                              vms := V, activatedChildren := A\<rparr>))"
        by (simp add: call_afterFlush_def)
      moreover have "ran [] = []" "warned [] = []" "updated [] = []"
        "length ([]::cbref list) = length (afterFlushCallbacks w) - 1"
        "set ([]::cbref list) \<subseteq> set (afterFlushCallbacks w)"
        using Nil by simp_all
      ultimately show ?thesis by blast
    next
      case (Cons f rest)
      with Suc.prems(2) have q: "quiets (callbacks env f)" by simp
      have c: "afterFlushCallbacks ?w1 = f # rest" using Cons by simp
      from call_afterFlush_quiet [OF c q, of fl] obtain V' A' where
        "call_afterFlush fl env ?w1 =
           Some (Returned (?w1\<lparr>afterFlushCallbacks := rest, trace := trace ?w1 @ [EvCallback f],
                              vms := V', activatedChildren := A'\<rparr>))" by blast
      moreover have "ran [EvCallback f] = []" "warned [EvCallback f] = []" "updated [EvCallback f] = []"
        "length rest = length (afterFlushCallbacks w) - 1" "set rest \<subseteq> set (afterFlushCallbacks w)"
        using Cons by auto
      ultimately show ?thesis by blast
    qed
    then obtain V' A' cev rest where
      ca: "call_afterFlush fl env ?w1 =
        Some (Returned (?w1\<lparr>afterFlushCallbacks := rest, trace := trace ?w1 @ cev,
                              vms := V', activatedChildren := A'\<rparr>))"
      and cev: "ran cev = []" "warned cev = []" "updated cev = []"
      and rest: "length rest = length (afterFlushCallbacks w) - 1" "set rest \<subseteq> set (afterFlushCallbacks w)"
      by blast
    let ?w2 = "?w1\<lparr>afterFlushCallbacks := rest, trace := trace ?w1 @ cev,
                              vms := V', activatedChildren := A'\<rparr>"
    have p1: "\<forall>r \<in> set (drop (index ?w2) (queue ?w2)). quiet_watcher env r" by simp
    have p2: "\<forall>f \<in> set (afterFlushCallbacks ?w2). quiets (callbacks env f)"
      using Suc.prems(2) rest(2) by auto
    have p3: "index ?w2 \<le> length (queue ?w2)" by simp
    have p4: "length (queue ?w2) - index ?w2 + length (afterFlushCallbacks ?w2) \<le> k"
      using Suc.prems(4) rest(1) True Suc.prems(3) by (cases "afterFlushCallbacks w") auto
    from Suc.IH [OF p1 p2 p3 p4] obtain H' V'' A'' evs' where
      ih: "flush_while fl k env m ?w2 =
           Some (Returned (?w2\<lparr>has := H', trace := trace ?w2 @ evs', vms := V'', activatedChildren := A'',
                              index := length (queue ?w2), afterFlushCallbacks := []\<rparr>))"
      and ev': "ran evs' = drop (index ?w2) (queue ?w2)" "warned evs' = []" "updated evs' = []" by blast
    have "flush_while fl (Suc k) env m w = flush_while fl k env m ?w2"
      using True ff' ca by simp
    then have "flush_while fl (Suc k) env m w =
       Some (Returned (w\<lparr>has := H', trace := trace w @ (evs @ cev @ evs'), vms := V'', activatedChildren := A'',
                              index := length (queue w), afterFlushCallbacks := []\<rparr>))"
      using ih by simp
    moreover have "ran (evs @ cev @ evs') = drop (index w) (queue w)"
      "warned (evs @ cev @ evs') = []" "updated (evs @ cev @ evs') = []"
      using ev cev ev' by (simp_all add: ran_append warned_append updated_append)
    ultimately show ?thesis by blast
  qed
qed

lemma live_inactive [simp]:
  "live env (V(v := (V v)\<lparr>inactive := b\<rparr>)) r = live env V r"
  by (simp add: live_def)

lemma callActivatedHooks_eq:
  "\<exists>V. callActivatedHooks vs w = w\<lparr>vms := V, trace := trace w @ map EvActivated vs\<rparr> \<and>
       (\<forall>r. live env V r = live env (vms w) r)"
proof (induction vs arbitrary: w)
  case Nil
  have "callActivatedHooks [] w = w\<lparr>vms := vms w, trace := trace w @ map EvActivated []\<rparr>" by simp
  then show ?case by blast
next
  case (Cons v vs)
  let ?w1 = "emit (EvActivated v) (w\<lparr>vms := (vms w)(v := (vms w v)\<lparr>inactive := True\<rparr>)\<rparr>)"
  from Cons [of ?w1] obtain V where
    V: "callActivatedHooks vs ?w1 = ?w1\<lparr>vms := V, trace := trace ?w1 @ map EvActivated vs\<rparr>"
      "\<forall>r. live env V r = live env (vms ?w1) r" by blast
  have "callActivatedHooks (v # vs) w = w\<lparr>vms := V, trace := trace w @ map EvActivated (v # vs)\<rparr>"
    using V(1) by (simp add: emit_def)
  moreover have "\<forall>r. live env V r = live env (vms w) r"
    using V(2) by (simp add: emit_def)
  ultimately show ?case by blast
qed

lemma callUpdatedHooks_eq:
  "i \<le> length q \<Longrightarrow>
   callUpdatedHooks env q i w =
     Returned (w\<lparr>trace := trace w @ map (\<lambda>r. EvUpdated (vm (watchers env r)))
                                      (filter (live env (vms w)) (rev (take i q)))\<rparr>)"
proof (induction i arbitrary: w)
  case 0
  then show ?case by simp
next
  case (Suc i)
  then have i: "i < length q" "i \<le> length q" by simp_all
  have t: "take (Suc i) q = take i q @ [q ! i]" using i by (simp add: take_Suc_conv_app_nth)
  show ?case
    using i Suc.IH [OF i(2)] unfolding t
    by (simp add: Let_def emit_def live_def)
qed

lemma ran_hooks [simp]:
  "ran (map EvActivated vs) = []" "ran (map (\<lambda>r. EvUpdated (g r)) rs) = []"
  "warned (map EvActivated vs) = []" "warned (map (\<lambda>r. EvUpdated (g r)) rs) = []"
  "updated (map EvActivated vs) = []" "updated (map (\<lambda>r. EvUpdated (g r)) rs) = map g rs"
  by (induction vs, simp_all) (induction rs, simp_all)+

lemma hook_events_proj:
  "ran (hook_events env w) = []" "warned (hook_events env w) = []"
  "updated (hook_events env w) =
     map (\<lambda>r. vm (watchers env r)) (filter (live env (vms w)) (rev (take (index w) (queue w))))"
  by (simp_all add: hook_events_def ran_append warned_append updated_append)

lemma reset_keeps [simp]:
  "trace (resetSchedulerState env w) = trace w" "vms (resetSchedulerState env w) = vms w"
  "insideRun (resetSchedulerState env w) = insideRun w"
  "afterFlushCallbacks (resetSchedulerState env w) = afterFlushCallbacks w"
  by (simp_all add: resetSchedulerState_def Let_def)

lemma flush_finally_eq:
  assumes "index (world_of r) \<le> length (queue (world_of r))"
  shows "\<exists>V. (\<forall>x. live env V x = live env (vms (world_of r)) x) \<and>
           flush_finally env r =
             (case r of Returned w \<Rightarrow> Returned | Thrown e w \<Rightarrow> Thrown e)
               ((resetSchedulerState env (world_of r))
                  \<lparr>vms := V, trace := trace (world_of r) @ hook_events env (world_of r)\<rparr>)"
proof -
  let ?w = "world_of r"
  let ?w1 = "resetSchedulerState env ?w"
  have r1: "trace ?w1 = trace ?w" "vms ?w1 = vms ?w"
    by simp_all
  from callActivatedHooks_eq [of "activatedChildren ?w" ?w1 env] obtain V where
    V: "callActivatedHooks (activatedChildren ?w) ?w1 =
          ?w1\<lparr>vms := V, trace := trace ?w1 @ map EvActivated (activatedChildren ?w)\<rparr>"
       "\<forall>x. live env V x = live env (vms ?w1) x" by blast
  let ?w2 = "?w1\<lparr>vms := V, trace := trace ?w1 @ map EvActivated (activatedChildren ?w)\<rparr>"
  have lv: "live env V = live env (vms ?w)" using V(2) r1 by auto
  have u: "callUpdatedHooks env (queue ?w) (index ?w) ?w2 =
     Returned (?w2\<lparr>trace := trace ?w2 @ map (\<lambda>r. EvUpdated (vm (watchers env r)))
                      (filter (live env (vms ?w2)) (rev (take (index ?w) (queue ?w))))\<rparr>)"
    by (rule callUpdatedHooks_eq [OF assms])
  have "flush_finally env r =
             (case r of Returned w \<Rightarrow> Returned | Thrown e w \<Rightarrow> Thrown e)
               (?w1\<lparr>vms := V, trace := trace ?w @ hook_events env ?w\<rparr>)"
    unfolding flush_finally_def Let_def V(1) u
    by (cases r) (simp_all add: hook_events_def emit_def lv)
  with V(2) r1 show ?thesis by auto
qed

lemma flush_quiet:
  assumes nf: "\<not> flushing w" and ni: "\<not> insideRun w"
    and qw: "\<forall>r \<in> set (queue w). quiet_watcher env r"
    and qc: "\<forall>f \<in> set (afterFlushCallbacks w). quiets (callbacks env f)"
    and fuel: "length (queue w) + length (afterFlushCallbacks w) < n"
  shows "\<exists>w' evs hs. flushSchedulerQueue n env m w = Some (Returned w') \<and>
           trace w' = trace w @ evs @ hs \<and>
           ran evs = sort_key (\<lambda>r. id_w (watchers env r)) (queue w) \<and>
           warned evs = [] \<and> updated evs = [] \<and>
           ran hs = [] \<and> warned hs = [] \<and>
           updated hs = map (\<lambda>r. vm (watchers env r))
             (filter (live env (vms w')) (rev (sort_key (\<lambda>r. id_w (watchers env r)) (queue w)))) \<and>
           queue w' = [] \<and> index w' = 0 \<and> has w' = Map.empty \<and>
           \<not> flushing w' \<and> \<not> waiting w' \<and> \<not> insideRun w' \<and> afterFlushCallbacks w' = []"
proof -
  from fuel obtain k where n: "n = Suc k" by (cases n) auto
  let ?fl = "\<lambda>m' w'. flushSchedulerQueue k env m' w'"
  let ?sq = "sort_key (\<lambda>r. id_w (watchers env r)) (queue w)"
  let ?ws = "w\<lparr>currentFlushTimestamp := now w, flushing := True\<rparr>\<lparr>queue := ?sq, index := 0\<rparr>"
  have p1: "\<forall>r \<in> set (drop (index ?ws) (queue ?ws)). quiet_watcher env r" using qw by simp
  have p2: "\<forall>f \<in> set (afterFlushCallbacks ?ws). quiets (callbacks env f)" using qc by simp
  have p3: "index ?ws \<le> length (queue ?ws)" by simp
  have p4: "length (queue ?ws) - index ?ws + length (afterFlushCallbacks ?ws) \<le> Suc k"
    using fuel n by simp
  from flush_while_quiet [OF p1 p2 p3 p4, of ?fl "limit_of m"] obtain H V A evs where
    fw: "flush_while ?fl (Suc k) env (limit_of m) ?ws =
           Some (Returned (?ws\<lparr>has := H, trace := trace ?ws @ evs, vms := V, activatedChildren := A,
                              index := length (queue ?ws), afterFlushCallbacks := []\<rparr>))"
    and ev: "ran evs = drop (index ?ws) (queue ?ws)" "warned evs = []" "updated evs = []" by blast
  let ?wf = "?ws\<lparr>has := H, trace := trace ?ws @ evs, vms := V, activatedChildren := A,
                              index := length (queue ?ws), afterFlushCallbacks := []\<rparr>"
  have "index (world_of (Returned ?wf)) \<le> length (queue (world_of (Returned ?wf)))" by simp
  from flush_finally_eq [OF this, of env] obtain V' where
    lv: "\<forall>x. live env V' x = live env (vms ?wf) x"
    and ff: "flush_finally env (Returned ?wf) =
       Returned ((resetSchedulerState env ?wf)\<lparr>vms := V', trace := trace ?wf @ hook_events env ?wf\<rparr>)"
    by auto
  let ?w' = "(resetSchedulerState env ?wf)\<lparr>vms := V', trace := trace ?wf @ hook_events env ?wf\<rparr>"
  have res: "flushSchedulerQueue n env m w = Some (Returned ?w')"
    unfolding n using nf ni fw ff by (simp add: flush_try_def)
  have lv': "live env (vms ?w') = live env V" using lv by auto
  have t: "trace ?w' = trace w @ evs @ hook_events env ?wf" by simp
  have u: "updated (hook_events env ?wf) = map (\<lambda>r. vm (watchers env r)) (filter (live env (vms ?w')) (rev ?sq))"
    unfolding lv' by (simp add: hook_events_proj)
  have rest: "queue ?w' = []" "index ?w' = 0" "has ?w' = Map.empty" "\<not> flushing ?w'" "\<not> waiting ?w'"
    "\<not> insideRun ?w'" "afterFlushCallbacks ?w' = []"
    using ni by (simp_all add: resetSchedulerState_def Let_def)
  have e: "ran evs = ?sq" using ev(1) by simp
  show ?thesis
    using res t e ev(2,3) hook_events_proj(1,2) [of env ?wf] u rest by blast
qed


text \<open>
  C1. A flush that starts with the queue \<open>queue w\<close>, whose watchers and pending callbacks
  are all quiet (nothing is queued during the flush), returns, given fuel for one pass
  over the queue and the callbacks; the watchers it has run are, in this order, the queue
  sorted by id: sorted by ascending id and the same watchers as the queue. Queueing the
  watchers 3, 1, 2 and flushing runs 1, 2, 3.
\<close>

theorem flush_runs_in_ascending_id_order:
  assumes "\<not> flushing w" and "\<not> insideRun w"
    and "\<forall>r \<in> set (queue w). quiet_watcher env r"
    and "\<forall>f \<in> set (afterFlushCallbacks w). quiets (callbacks env f)"
    and "length (queue w) + length (afterFlushCallbacks w) < n"
  shows "(\<exists>w' evs. flushSchedulerQueue n env m w = Some (Returned w') \<and>
           trace w' = trace w @ evs \<and>
           ran evs = sort_key (\<lambda>r. id_w (watchers env r)) (queue w) \<and>
           sorted (map (\<lambda>r. id_w (watchers env r)) (ran evs)) \<and>
           mset (ran evs) = mset (queue w) \<and>
           queue w' = []) \<and>
         ran (trace (world_of (the (script 5 demo_env
           [QueueWatcher 3, QueueWatcher 1, QueueWatcher 2, ForceFlush None] idle)))) = [1, 2, 3]"
proof -
  from flush_quiet [OF assms, of m] obtain w' evs hs where
    f: "flushSchedulerQueue n env m w = Some (Returned w')" "trace w' = trace w @ evs @ hs"
      "ran evs = sort_key (\<lambda>r. id_w (watchers env r)) (queue w)" "ran hs = []" "queue w' = []"
    by blast
  have "ran (evs @ hs) = sort_key (\<lambda>r. id_w (watchers env r)) (queue w)"
    using f(3,4) by (simp add: ran_append)
  moreover have "trace w' = trace w @ (evs @ hs)" using f(2) by simp
  moreover have "sorted (map (\<lambda>r. id_w (watchers env r)) (sort_key (\<lambda>r. id_w (watchers env r)) (queue w)))"
    by simp
  moreover have "mset (sort_key (\<lambda>r. id_w (watchers env r)) (queue w)) = mset (queue w)"
    by simp
  moreover have "ran (trace (world_of (the (script 5 demo_env
           [QueueWatcher 3, QueueWatcher 1, QueueWatcher 2, ForceFlush None] idle)))) = [1, 2, 3]"
    by code_simp
  ultimately show ?thesis using f(1,5) by metis
qed

theorem flush_runs_in_ascending_id_order_witness:
  "\<not> flushing (idle\<lparr>queue := [3, 1, 2], has := [3 \<mapsto> (), 1 \<mapsto> (), 2 \<mapsto> ()], waiting := True\<rparr>) \<and>
   \<not> insideRun (idle\<lparr>queue := [3, 1, 2], has := [3 \<mapsto> (), 1 \<mapsto> (), 2 \<mapsto> ()], waiting := True\<rparr>) \<and>
   quiet_watcher demo_env 3 \<and> quiet_watcher demo_env 1 \<and> quiet_watcher demo_env 2 \<and>
   (\<exists>w'. flushSchedulerQueue 5 demo_env None
           (idle\<lparr>queue := [3, 1, 2], has := [3 \<mapsto> (), 1 \<mapsto> (), 2 \<mapsto> ()], waiting := True\<rparr>) =
         Some (Returned w') \<and>
         ran (trace w') = [1, 2, 3] \<and> queue w' = [])"
proof -
  let ?w = "idle\<lparr>queue := [3, 1, 2], has := [3 \<mapsto> (), 1 \<mapsto> (), 2 \<mapsto> ()], waiting := True\<rparr>"
  have q: "quiet_watcher demo_env 3" "quiet_watcher demo_env 1" "quiet_watcher demo_env 2"
    by (simp_all add: quiet_watcher_def demo_env_def job_def)
  have h: "\<not> flushing ?w" "\<not> insideRun ?w" "\<forall>r \<in> set (queue ?w). quiet_watcher demo_env r"
    "\<forall>f \<in> set (afterFlushCallbacks ?w). quiets (callbacks demo_env f)"
    "length (queue ?w) + length (afterFlushCallbacks ?w) < 5"
    using q by (simp_all add: idle_def)
  have s: "sort_key (\<lambda>r. id_w (watchers demo_env r)) (queue ?w) = [1, 2, 3]"
    by (simp add: demo_env_def job_def)
  have t: "trace ?w = []" by (simp add: idle_def)
  from flush_runs_in_ascending_id_order [OF h, of None]
  show ?thesis unfolding s t using q h(1,2) by auto
qed



subsection \<open>What a flush does with watchers that queue, flush and throw\<close>

text \<open>
  From here on the watchers and callbacks are arbitrary. While a flush is running, every
  call of \<open>flushSchedulerQueue\<close> from their code is refused, so their code can only add
  to the queue behind the cursor, add callbacks, and change components.
\<close>

lemma progressed_refl: "flushing w \<Longrightarrow> progressed w [] w"
  by (simp add: progressed_def)

lemma progressed_trans:
  assumes "progressed w e1 w1" and "progressed w1 e2 w2"
  shows "progressed w (e1 @ e2) w2"
proof -
  let ?b = "min (Suc (index w)) (length (queue w))"
  let ?b1 = "min (Suc (index w1)) (length (queue w1))"
  from assms have le: "?b \<le> ?b1" by (auto simp add: progressed_def)
  have "take ?b (queue w2) = take ?b (take ?b1 (queue w2))" using le by (simp add: min.absorb1)
  also have "take ?b1 (queue w2) = take ?b1 (queue w1)" using assms(2) by (simp add: progressed_def)
  also have "take ?b (take ?b1 (queue w1)) = take ?b (queue w1)" using le by (simp add: min.absorb1)
  also have "\<dots> = take ?b (queue w)" using assms(1) by (simp add: progressed_def)
  finally have "take ?b (queue w2) = take ?b (queue w)" .
  with assms show ?thesis by (auto simp add: progressed_def)
qed

lemma progressed_trans0:
  "progressed w [] w1 \<Longrightarrow> progressed w1 [] w2 \<Longrightarrow> progressed w [] w2"
  using progressed_trans [of w "[]" w1 "[]" w2] by simp

lemma insert_position_min:
  "min (Suc (index w)) (length (queue w)) \<le> insert_position env w r"
  "insert_position env w r \<le> length (queue w)"
proof -
  let ?s = "scan_back env (queue w) (index w) (id_w (watchers env r)) (int (length (queue w)) - 1)"
  have le: "?s \<le> int (length (queue w)) - 1" by (rule scan_back_le)
  then show "insert_position env w r \<le> length (queue w)" by (simp add: insert_position_def)
  show "min (Suc (index w)) (length (queue w)) \<le> insert_position env w r"
  proof (cases "index w < length (queue w)")
    case True
    then have "int (index w) \<le> int (length (queue w)) - 1" by simp
    then have "int (index w) \<le> ?s" by (rule scan_back_ge)
    then show ?thesis by (simp add: insert_position_def)
  next
    case False
    then have "int (length (queue w)) - 1 \<le> int (index w)" by simp
    then have "?s = int (length (queue w)) - 1" by (rule scan_back_below)
    then show ?thesis by (simp add: insert_position_def)
  qed
qed

lemma guarded_flush: "guarded (\<lambda>m' w'. flushSchedulerQueue n env m' w')"
  by (simp add: guarded_def flush_guard_flushing)

lemma requireFlush_progressed:
  assumes g: "guarded fl" and f: "flushing w"
  shows "\<exists>res. requireFlush fl env w = Some res \<and> progressed w [] (world_of res) \<and>
           queue (world_of res) = queue w \<and> has (world_of res) = has w \<and>
           afterFlushCallbacks (world_of res) = afterFlushCallbacks w"
proof -
  have "fl None (w\<lparr>waiting := True\<rparr>) =
      Some (Thrown (Error ''Cannot flush while already flushing.'') (w\<lparr>waiting := True\<rparr>))"
    using g f by (simp add: guarded_def)
  then show ?thesis using f by (auto simp add: requireFlush_def Let_def progressed_def)
qed

lemma queueWatcher_progressed:
  assumes g: "guarded fl" and f: "flushing w"
  shows "\<exists>res. queueWatcher fl env r w = Some res \<and> progressed w [] (world_of res)"
proof (cases "has w (id_w (watchers env r)) = None")
  case False
  then show ?thesis using f by (simp add: queueWatcher_def progressed_refl)
next
  case True
  let ?p = "insert_position env w r"
  let ?w2 = "w\<lparr>has := (has w)(id_w (watchers env r) \<mapsto> ()), queue := splice_in ?p r (queue w)\<rparr>"
  have ip: "insert_position env (w\<lparr>has := (has w)(id_w (watchers env r) \<mapsto> ())\<rparr>) r = ?p"
    by (simp add: insert_position_def)
  have qw: "queueWatcher fl env r w = requireFlush fl env ?w2"
    using True f by (simp add: queueWatcher_def Let_def ip)
  have "flushing ?w2" using f by simp
  from requireFlush_progressed [OF g this] obtain res where
    res: "requireFlush fl env ?w2 = Some res" "progressed ?w2 [] (world_of res)" by metis
  have "progressed w [] ?w2"
    using f insert_position_min [where w = w and env = env and r = r]
    by (simp add: progressed_def splice_in_def)
  from progressed_trans0 [OF this res(2)] have "progressed w [] (world_of res)" .
  with qw res(1) show ?thesis by simp
qed

lemma afterFlush_progressed:
  assumes g: "guarded fl" and f: "flushing w"
  shows "\<exists>res. afterFlush fl env c w = Some res \<and> progressed w [] (world_of res)"
proof -
  let ?w1 = "w\<lparr>afterFlushCallbacks := afterFlushCallbacks w @ [c]\<rparr>"
  have "flushing ?w1" using f by simp
  from requireFlush_progressed [OF g this] obtain res where
    res: "requireFlush fl env ?w1 = Some res" "progressed ?w1 [] (world_of res)" by metis
  have "progressed w [] ?w1" using f by (simp add: progressed_def)
  from progressed_trans0 [OF this res(2)] have "progressed w [] (world_of res)" .
  with res(1) show ?thesis by (simp add: afterFlush_def)
qed

lemma progressed_insideRun:
  "progressed (w\<lparr>insideRun := True\<rparr>) [] w' \<Longrightarrow> progressed w [] (w'\<lparr>insideRun := insideRun w\<rparr>)"
  by (simp add: progressed_def)

lemma exec_progressed:
  "guarded fl \<Longrightarrow> flushing w \<Longrightarrow> \<exists>res. exec fl env as w = Some res \<and> progressed w [] (world_of res)"
  "guarded fl \<Longrightarrow> flushing w \<Longrightarrow> \<exists>res. exec_action fl env a w = Some res \<and> progressed w [] (world_of res)"
proof (induction fl env as w and fl env a w rule: exec_exec_action.induct)
  case (1 fl env w)
  then show ?case by (simp add: progressed_refl)
next
  case (2 fl env a as w)
  from "2.IH"(1) [OF "2.prems"] obtain res where
    a: "exec_action fl env a w = Some res" "progressed w [] (world_of res)" by blast
  show ?case
  proof (cases res)
    case (Thrown e w')
    with a show ?thesis by simp
  next
    case (Returned w')
    with a have fw: "flushing w'" by (simp add: progressed_def)
    from "2.IH"(2) [OF a(1) Returned "2.prems"(1) fw] obtain res' where
      b: "exec fl env as w' = Some res'" "progressed w' [] (world_of res')" by auto
    from a(2) Returned b(2) have "progressed w [] (world_of res')" by (auto intro: progressed_trans0)
    with a(1) Returned b(1) show ?thesis by simp
  qed
next
  case (3 fl env r w)
  then show ?case by (simp add: queueWatcher_progressed)
next
  case (4 fl env v w)
  then show ?case by (simp add: queueActivatedComponent_def progressed_def)
next
  case (5 fl env f w)
  then show ?case by (simp add: afterFlush_progressed)
next
  case (6 fl env m w)
  then show ?case by (simp add: forceFlush_def guarded_def progressed_refl)
next
  case (7 fl env body w)
  have "flushing (w\<lparr>insideRun := True\<rparr>)" using "7.prems" by simp
  from "7.IH" [OF "7.prems"(1) this] obtain res where
    b: "exec fl env body (w\<lparr>insideRun := True\<rparr>) = Some res"
      "progressed (w\<lparr>insideRun := True\<rparr>) [] (world_of res)" by blast
  have "progressed w [] (world_of (restore_insideRun (insideRun w) res))"
    using progressed_insideRun [OF b(2)] by (cases res) simp_all
  with b(1) show ?case by simp
next
  case (8 fl env s w)
  then show ?case by (simp add: progressed_refl)
next
  case (9 fl env v c w)
  then show ?case by (simp add: progressed_def)
qed

lemma progressed_emit:
  "progressed (emit e (w\<lparr>has := h\<rparr>)) evs w' \<Longrightarrow> progressed w (e # evs) w'"
  "progressed (emit e w) evs w' \<Longrightarrow> progressed w (e # evs) w'"
  by (simp_all add: progressed_def emit_def)

lemma check_circular_Next:
  "check_circular env m r w2 = Next w3 \<Longrightarrow> progressed w evs w2 \<Longrightarrow> progressed w evs w3"
  by (auto simp add: check_circular_def Let_def progressed_def split: if_splits)

lemma check_circular_Break:
  assumes "check_circular env m r w2 = Break w3"
  shows "\<not> production env" and "has w2 (id_w (watchers env r)) \<noteq> None"
    and "m < (case circular w2 (id_w (watchers env r)) of None \<Rightarrow> 0 | Some c \<Rightarrow> c) + 1"
    and "w3 = w2\<lparr>circular := (circular w2)(id_w (watchers env r) \<mapsto>
                    (case circular w2 (id_w (watchers env r)) of None \<Rightarrow> 0 | Some c \<Rightarrow> c) + 1),
                 trace := trace w2 @ [EvWarn (warning (watchers env r)) (vm (watchers env r))],
                 index := length (queue w2)\<rparr>"
  using assms by (auto simp add: check_circular_def Let_def emit_def split: if_splits)

lemma check_circular_not_Raise: "check_circular env m r w2 \<noteq> Raise e w3"
  by (simp add: check_circular_def Let_def)

lemma for_body_progress:
  assumes g: "guarded fl" and f: "flushing w" and i: "index w < length (queue w)"
  shows "\<exists>it. for_body fl env m w = Some it \<and>
     (case it of
        Next w' \<Rightarrow> \<exists>evs. progressed w evs w' \<and> ran evs = [queue w ! index w] \<and>
                         warned evs = [] \<and> updated evs = []
      | Break w' \<Rightarrow> \<exists>evs w2. progressed w evs w2 \<and> ran evs = [queue w ! index w] \<and>
                         warned evs = [] \<and> updated evs = [] \<and>
                         check_circular env m (queue w ! index w) w2 = Break w'
      | Raise e w' \<Rightarrow> \<exists>evs. progressed w evs w' \<and> warned evs = [] \<and> updated evs = [] \<and>
                         (ran evs = [] \<or> ran evs = [queue w ! index w]))"
proof -
  let ?r = "queue w ! index w"
  let ?wt = "watchers env ?r"
  let ?B = "case before ?wt of None \<Rightarrow> Some (Returned w)
            | Some b \<Rightarrow> exec fl env b (emit (EvBefore ?r) w)"
  have "\<exists>res1 bev. ?B = Some res1 \<and> progressed w bev (world_of res1) \<and>
          ran bev = [] \<and> warned bev = [] \<and> updated bev = []"
  proof (cases "before ?wt")
    case None
    then have "?B = Some (Returned w)" by simp
    moreover have "progressed w [] (world_of (Returned w))" using f by (simp add: progressed_refl)
    ultimately show ?thesis using ran.simps(1) warned.simps(1) updated.simps(1) by blast
  next
    case (Some b)
    have "flushing (emit (EvBefore ?r) w)" using f by (simp add: emit_def)
    from exec_progressed(1) [OF g this] obtain res1 where
      r1: "exec fl env b (emit (EvBefore ?r) w) = Some res1"
        "progressed (emit (EvBefore ?r) w) [] (world_of res1)" by blast
    have "progressed w [EvBefore ?r] (world_of res1)" using r1(2) by (rule progressed_emit(2))
    moreover have "?B = Some res1" using Some r1(1) by simp
    moreover have "ran [EvBefore ?r] = []" "warned [EvBefore ?r] = []" "updated [EvBefore ?r] = []"
      by simp_all
    ultimately show ?thesis by blast
  qed
  then obtain res1 bev where B: "?B = Some res1" and p1: "progressed w bev (world_of res1)"
    and bev: "ran bev = []" "warned bev = []" "updated bev = []" by blast
  show ?thesis
  proof (cases res1)
    case (Thrown e w1)
    then have "for_body fl env m w = Some (Raise e w1)"
      using B by (simp add: for_body_def Let_def)
    moreover have "progressed w bev w1" using p1 Thrown by simp
    ultimately show ?thesis using bev by auto
  next
    case (Returned w1)
    let ?w1' = "emit (EvRun ?r) (w1\<lparr>has := (has w1)(id_w ?wt := None)\<rparr>)"
    have "flushing ?w1'" using p1 Returned by (simp add: emit_def progressed_def)
    from exec_progressed(1) [OF g this] obtain res2 where
      r2: "exec fl env (run ?wt) ?w1' = Some res2" "progressed ?w1' [] (world_of res2)" by blast
    have "progressed w1 [EvRun ?r] (world_of res2)" using r2(2) by (rule progressed_emit(1))
    with p1 Returned have p2: "progressed w (bev @ [EvRun ?r]) (world_of res2)"
      using progressed_trans by fastforce
    have ev: "ran (bev @ [EvRun ?r]) = [?r]" "warned (bev @ [EvRun ?r]) = []"
      "updated (bev @ [EvRun ?r]) = []"
      using bev by (simp_all add: ran_append warned_append updated_append)
    show ?thesis
    proof (cases res2)
      case (Thrown e w2)
      then have "for_body fl env m w = Some (Raise e w2)"
        using B Returned r2(1) by (simp add: for_body_def Let_def)
      moreover have "progressed w (bev @ [EvRun ?r]) w2" using p2 Thrown by simp
      ultimately show ?thesis using ev by auto
    next
      case R2: (Returned w2)
      then have fb: "for_body fl env m w = Some (check_circular env m ?r w2)"
        using B Returned r2(1) by (simp add: for_body_def Let_def)
      have p2': "progressed w (bev @ [EvRun ?r]) w2" using p2 R2 by simp
      show ?thesis
      proof (cases "check_circular env m ?r w2")
        case (Next w3)
        from check_circular_Next [OF Next p2'] have "progressed w (bev @ [EvRun ?r]) w3" .
        with fb Next ev show ?thesis by auto
      next
        case (Break w3)
        with fb p2' ev show ?thesis by auto
      next
        case (Raise e w3)
        then show ?thesis by (simp add: check_circular_not_Raise)
      qed
    qed
  qed
qed

lemma drop_take_drop: "i \<le> j \<Longrightarrow> j \<le> length q \<Longrightarrow> drop i (take j q) @ drop j q = drop i q"
proof -
  assume a: "i \<le> j" "j \<le> length q"
  have "drop i q = drop i (take j q @ drop j q)" by simp
  also have "\<dots> = drop i (take j q) @ drop (i - length (take j q)) (drop j q)" by (rule drop_append)
  also have "i - length (take j q) = 0" using a by simp
  finally show ?thesis by simp
qed

lemma take_take_le: "i \<le> j \<Longrightarrow> take i (take j q) = take i q"
  by (simp add: min.absorb1)

lemma looped_done:
  "flushing w \<Longrightarrow> index w = length (queue w) \<Longrightarrow> looped w [] (Returned w)"
  by (simp add: looped_def)

lemma looped_step:
  assumes p: "progressed w e1 w'" and i: "index w < length (queue w)"
    and e1: "ran e1 = [queue w ! index w]" "warned e1 = []" "updated e1 = []"
    and l: "looped (w'\<lparr>index := Suc (index w')\<rparr>) e2 res"
  shows "looped w (e1 @ e2) res"
proof -
  let ?i = "index w"
  let ?Q = "queue (world_of res)"
  from p i have t1: "take (Suc ?i) (queue w') = take (Suc ?i) (queue w)"
    and iw': "index w' = ?i" and len: "length (queue w) \<le> length (queue w')"
    by (simp_all add: progressed_def min.absorb1 Suc_leI)
  from l iw' have t2: "take (Suc ?i) ?Q = take (Suc ?i) (queue w')"
    and ir: "Suc ?i \<le> index (world_of res)" "index (world_of res) \<le> length ?Q"
    by (simp_all add: looped_def)
  from t1 t2 have T: "take (Suc ?i) ?Q = take (Suc ?i) (queue w)" by simp
  have "take ?i ?Q = take ?i (take (Suc ?i) ?Q)" by (simp add: take_take_le)
  also have "\<dots> = take ?i (take (Suc ?i) (queue w))" using T by simp
  also have "\<dots> = take ?i (queue w)" by (simp add: take_take_le)
  finally have tk: "take ?i ?Q = take ?i (queue w)" .
  have "?Q ! ?i = take (Suc ?i) ?Q ! ?i" by simp
  also have "\<dots> = take (Suc ?i) (queue w) ! ?i" using T by simp
  also have "\<dots> = queue w ! ?i" by simp
  finally have nth: "?Q ! ?i = queue w ! ?i" .
  have lt: "?i < length ?Q" using ir by simp
  have base: "flushing (world_of res)" "insideRun (world_of res) = insideRun w"
    "currentFlushTimestamp (world_of res) = currentFlushTimestamp w"
    "trace (world_of res) = trace w @ (e1 @ e2)" "updated (e1 @ e2) = []"
    "?i \<le> index (world_of res)"
    using p l e1 ir by (simp_all add: looped_def progressed_def updated_append)
  show ?thesis
  proof (cases res)
    case (Thrown e w'')
    then show ?thesis using base ir tk by (simp add: looped_def)
  next
    case (Returned w'')
    have "ran (e1 @ e2) = drop ?i ?Q" if "warned (e1 @ e2) = []"
    proof -
      from that have "warned e2 = []" by (simp add: warned_append)
      with l Returned have "ran e2 = drop (Suc ?i) ?Q" using iw' by (simp add: looped_def)
      moreover have "?Q ! ?i # drop (Suc ?i) ?Q = drop ?i ?Q" using lt by (rule Cons_nth_drop_Suc)
      ultimately show ?thesis using e1 nth by (simp add: ran_append)
    qed
    moreover have "index w'' = length (queue w'')" using l Returned by (simp add: looped_def)
    ultimately show ?thesis using Returned base ir tk by (simp add: looped_def)
  qed
qed


lemma call_afterFlush_progressed:
  assumes g: "guarded fl" and f: "flushing w"
  shows "\<exists>w2 e2. call_afterFlush fl env w = Some (Returned w2) \<and> progressed w e2 w2 \<and>
           ran e2 = [] \<and> warned e2 = [] \<and> updated e2 = []"
proof (cases "afterFlushCallbacks w")
  case Nil
  then have "call_afterFlush fl env w = Some (Returned w)" by (simp add: call_afterFlush_def)
  moreover have "progressed w [] w" using f by (rule progressed_refl)
  ultimately show ?thesis using ran.simps(1) warned.simps(1) updated.simps(1) by blast
next
  case (Cons c rest)
  let ?w1 = "emit (EvCallback c) (w\<lparr>afterFlushCallbacks := rest\<rparr>)"
  have "flushing ?w1" using f by (simp add: emit_def)
  from exec_progressed(1) [OF g this] obtain res where
    r: "exec fl env (callbacks env c) ?w1 = Some res" "progressed ?w1 [] (world_of res)" by blast
  have p: "progressed w [EvCallback c] (world_of res)"
    using r(2) by (simp add: progressed_def emit_def)
  show ?thesis
  proof (cases res)
    case (Returned w')
    then have "call_afterFlush fl env w = Some (Returned w')"
      using Cons r(1) by (simp add: call_afterFlush_def)
    moreover have "progressed w [EvCallback c] w'" using p Returned by simp
    moreover have "ran [EvCallback c] = []" "warned [EvCallback c] = []" "updated [EvCallback c] = []"
      by simp_all
    ultimately show ?thesis by blast
  next
    case (Thrown e w')
    let ?h = "EvHandleError e ''Error in an after flush callback.''"
    from Thrown have "call_afterFlush fl env w = Some (Returned (emit ?h w'))"
      using Cons r(1) by (simp add: call_afterFlush_def)
    moreover have "progressed w [EvCallback c, ?h] (emit ?h w')"
      using p Thrown by (simp add: progressed_def emit_def)
    moreover have "ran [EvCallback c, ?h] = []" "warned [EvCallback c, ?h] = []"
      "updated [EvCallback c, ?h] = []"
      by simp_all
    ultimately show ?thesis by blast
  qed
qed

lemma looped_seq:
  assumes l1: "looped w e1 (Returned w1)" and p: "progressed w1 e2 w2"
    and e2: "ran e2 = []" "warned e2 = []" "updated e2 = []"
    and l2: "looped w2 e3 res"
  shows "looped w (e1 @ e2 @ e3) res"
proof -
  let ?i = "index w"
  let ?j = "index w1"
  let ?Q = "queue (world_of res)"
  from l1 have j: "?j = length (queue w1)" "?i \<le> ?j" and t1: "take ?i (queue w1) = take ?i (queue w)"
    by (simp_all add: looped_def)
  from p j have t2: "take ?j (queue w2) = queue w1" and j2: "index w2 = ?j"
    by (simp_all add: progressed_def)
  from l2 j2 have t3: "take ?j ?Q = take ?j (queue w2)"
    and jr: "?j \<le> index (world_of res)" "index (world_of res) \<le> length ?Q"
    by (simp_all add: looped_def)
  from t2 t3 have T: "take ?j ?Q = queue w1" by simp
  have "take ?i ?Q = take ?i (take ?j ?Q)" using j(2) by (simp add: take_take_le)
  with T t1 have tk: "take ?i ?Q = take ?i (queue w)" by simp
  have base: "flushing (world_of res)" "insideRun (world_of res) = insideRun w"
    "currentFlushTimestamp (world_of res) = currentFlushTimestamp w"
    "trace (world_of res) = trace w @ (e1 @ e2 @ e3)" "updated (e1 @ e2 @ e3) = []"
    "?i \<le> index (world_of res)"
    using l1 p l2 e2 j jr by (simp_all add: looped_def progressed_def updated_append)
  show ?thesis
  proof (cases res)
    case (Thrown e w')
    then show ?thesis using base jr tk by (simp add: looped_def)
  next
    case (Returned w')
    have "ran (e1 @ e2 @ e3) = drop ?i ?Q" if "warned (e1 @ e2 @ e3) = []"
    proof -
      from that have w: "warned e1 = []" "warned e3 = []" by (simp_all add: warned_append)
      from l1 w(1) have "ran e1 = drop ?i (queue w1)" by (simp add: looped_def)
      with T have r1: "ran e1 = drop ?i (take ?j ?Q)" by simp
      from l2 w(2) Returned j2 have r3: "ran e3 = drop ?j ?Q" by (simp add: looped_def)
      have "?j \<le> length ?Q" using jr by simp
      from drop_take_drop [OF j(2) this] r1 r3 e2 show ?thesis by (simp add: ran_append)
    qed
    moreover have "index w' = length (queue w')" using l2 Returned by (simp add: looped_def)
    ultimately show ?thesis using Returned base jr tk by (simp add: looped_def)
  qed
qed


lemma flush_unfold:
  assumes "\<not> flushing w" and "\<not> insideRun w"
  shows "flushSchedulerQueue (Suc k) env m w =
     map_option (flush_finally env)
       (flush_try (\<lambda>m' w'. flushSchedulerQueue k env m' w') (Suc k) env (limit_of m)
          (w\<lparr>currentFlushTimestamp := now w, flushing := True\<rparr>))"
  using assms by simp


lemma reset_fields:
  "index (resetSchedulerState env w) = 0" "has (resetSchedulerState env w) = Map.empty"
  "\<not> flushing (resetSchedulerState env w)" "\<not> waiting (resetSchedulerState env w)"
  "activatedChildren (resetSchedulerState env w) = []"
  "queue (resetSchedulerState env w) = drop (index w) (queue w)"
  by (auto simp add: resetSchedulerState_def Let_def)

subsection \<open>Circular updates\<close>

text \<open>
  A watcher that does nothing but queue itself, alone in the queue: every run puts it
  behind the cursor once more, until the count passes the limit.
\<close>

lemma insert_position_at_end:
  "index w = length (queue w) - 1 \<Longrightarrow> insert_position env w r = length (queue w)"
proof -
  assume a: "index w = length (queue w) - 1"
  then have "int (length (queue w)) - 1 \<le> int (index w)" by simp
  then have "scan_back env (queue w) (index w) (id_w (watchers env r)) (int (length (queue w)) - 1) =
      int (length (queue w)) - 1" by (rule scan_back_below)
  then show ?thesis by (simp add: insert_position_def)
qed

lemma for_body_self_requeue:
  assumes wr: "run (watchers env r) = [QueueWatcher r]" "before (watchers env r) = None"
    and st: "flushing w" "waiting w" "queue w = replicate (Suc j) r" "index w = j"
  shows "for_body fl env lim w =
     Some (check_circular env lim r
             (w\<lparr>has := (has w)(id_w (watchers env r) \<mapsto> ()),
                trace := trace w @ [EvRun r],
                queue := replicate (Suc (Suc j)) r\<rparr>))"
proof -
  let ?i = "id_w (watchers env r)"
  let ?w1 = "emit (EvRun r) (w\<lparr>has := (has w)(?i := None)\<rparr>)"
  have q: "queue w ! index w = r" using st by (metis lessI nth_replicate)
  have ip: "insert_position env (?w1\<lparr>has := (has ?w1)(?i \<mapsto> ())\<rparr>) r = Suc j"
    using st by (intro insert_position_at_end [THEN trans]) (simp_all add: emit_def)
  have "exec fl env [QueueWatcher r] ?w1 =
      Some (Returned (w\<lparr>has := (has w)(?i \<mapsto> ()), trace := trace w @ [EvRun r],
                queue := replicate (Suc (Suc j)) r\<rparr>))"
    using st ip
    by (simp add: queueWatcher_def requireFlush_def Let_def emit_def splice_in_def
        replicate_append_same)
  then show ?thesis
    unfolding for_body_def Let_def q using wr by simp
qed

lemma flush_for_self_requeue:
  assumes dev: "\<not> production env"
    and wr: "run (watchers env r) = [QueueWatcher r]" "before (watchers env r) = None"
  shows "flushing w \<Longrightarrow> waiting w \<Longrightarrow> queue w = replicate (Suc j) r \<Longrightarrow> index w = j \<Longrightarrow>
     (case circular w (id_w (watchers env r)) of None \<Rightarrow> 0 | Some c \<Rightarrow> c) = c \<Longrightarrow>
     nat (lim - c) = d \<Longrightarrow> d < k \<Longrightarrow>
     flush_for fl k env lim w =
       Some (Returned (w\<lparr>queue := replicate (j + d + 2) r, index := j + d + 2,
                          has := (has w)(id_w (watchers env r) \<mapsto> ()),
                          circular := (circular w)(id_w (watchers env r) \<mapsto> c + int d + 1),
                          trace := trace w @ replicate (d + 1) (EvRun r) @
                                   [EvWarn (warning (watchers env r)) (vm (watchers env r))]\<rparr>))"
proof (induction d arbitrary: w j c k)
  case 0
  let ?i = "id_w (watchers env r)"
  let ?w2 = "w\<lparr>has := (has w)(?i \<mapsto> ()), trace := trace w @ [EvRun r],
                queue := replicate (Suc (Suc j)) r\<rparr>"
  from 0 obtain k' where k: "k = Suc k'" by (cases k) auto
  have fb: "for_body fl env lim w = Some (check_circular env lim r ?w2)"
    using for_body_self_requeue [OF wr "0.prems"(1-4)] .
  have "lim < c + 1" using "0.prems"(6) by simp
  then have "check_circular env lim r ?w2 =
      Break (?w2\<lparr>circular := (circular w)(?i \<mapsto> c + 1),
                 trace := trace ?w2 @ [EvWarn (warning (watchers env r)) (vm (watchers env r))],
                 index := length (queue ?w2)\<rparr>)"
    using dev "0.prems"(5) by (simp add: check_circular_def Let_def emit_def)
  with fb have F: "flush_for fl k env lim w =
      Some (Returned (?w2\<lparr>circular := (circular w)(?i \<mapsto> c + 1),
                 trace := trace ?w2 @ [EvWarn (warning (watchers env r)) (vm (watchers env r))],
                 index := length (queue ?w2)\<rparr>))"
    using "0.prems"(3,4) unfolding k by simp
  have E: "?w2\<lparr>circular := (circular w)(?i \<mapsto> c + 1),
                 trace := trace ?w2 @ [EvWarn (warning (watchers env r)) (vm (watchers env r))],
                 index := length (queue ?w2)\<rparr> =
      w\<lparr>queue := replicate (j + 0 + 2) r, index := j + 0 + 2,
                          has := (has w)(id_w (watchers env r) \<mapsto> ()),
                          circular := (circular w)(id_w (watchers env r) \<mapsto> c + int 0 + 1),
                          trace := trace w @ replicate (0 + 1) (EvRun r) @
                                   [EvWarn (warning (watchers env r)) (vm (watchers env r))]\<rparr>"
    by (rule world.equality) simp_all
  from F [unfolded E] show ?case .
next
  case (Suc d)
  let ?i = "id_w (watchers env r)"
  let ?w2 = "w\<lparr>has := (has w)(?i \<mapsto> ()), trace := trace w @ [EvRun r],
                queue := replicate (Suc (Suc j)) r\<rparr>"
  from Suc.prems obtain k' where k: "k = Suc k'" by (cases k) auto
  have fb: "for_body fl env lim w = Some (check_circular env lim r ?w2)"
    using for_body_self_requeue [OF wr Suc.prems(1-4)] .
  have le: "\<not> lim < c + 1" using Suc.prems(6) by simp
  then have cc: "check_circular env lim r ?w2 = Next (?w2\<lparr>circular := (circular w)(?i \<mapsto> c + 1)\<rparr>)"
    using dev Suc.prems(5) by (simp add: check_circular_def Let_def)
  let ?w3 = "?w2\<lparr>circular := (circular w)(?i \<mapsto> c + 1), index := Suc j\<rparr>"
  have step: "flush_for fl k env lim w = flush_for fl k' env lim ?w3"
    using fb cc Suc.prems(3,4) unfolding k by simp
  have p: "flushing ?w3" "waiting ?w3" "queue ?w3 = replicate (Suc (Suc j)) r" "index ?w3 = Suc j"
    "(case circular ?w3 ?i of None \<Rightarrow> 0 | Some c \<Rightarrow> c) = c + 1"
    "nat (lim - (c + 1)) = d" "d < k'"
    using Suc.prems k by simp_all
  from Suc.IH [OF p] have "flush_for fl k' env lim ?w3 =
       Some (Returned (?w3\<lparr>queue := replicate (Suc j + d + 2) r, index := Suc j + d + 2,
                          has := (has ?w3)(?i \<mapsto> ()),
                          circular := (circular ?w3)(?i \<mapsto> c + 1 + int d + 1),
                          trace := trace ?w3 @ replicate (d + 1) (EvRun r) @
                                   [EvWarn (warning (watchers env r)) (vm (watchers env r))]\<rparr>))" .
  then have F: "flush_for fl k env lim w =
       Some (Returned (?w3\<lparr>queue := replicate (Suc j + d + 2) r, index := Suc j + d + 2,
                          has := (has ?w3)(?i \<mapsto> ()),
                          circular := (circular ?w3)(?i \<mapsto> c + 1 + int d + 1),
                          trace := trace ?w3 @ replicate (d + 1) (EvRun r) @
                                   [EvWarn (warning (watchers env r)) (vm (watchers env r))]\<rparr>))"
    using step by (simp only:)
  have E: "?w3\<lparr>queue := replicate (Suc j + d + 2) r, index := Suc j + d + 2,
                          has := (has ?w3)(?i \<mapsto> ()),
                          circular := (circular ?w3)(?i \<mapsto> c + 1 + int d + 1),
                          trace := trace ?w3 @ replicate (d + 1) (EvRun r) @
                                   [EvWarn (warning (watchers env r)) (vm (watchers env r))]\<rparr> =
      w\<lparr>queue := replicate (j + Suc d + 2) r, index := j + Suc d + 2,
                          has := (has w)(id_w (watchers env r) \<mapsto> ()),
                          circular := (circular w)(id_w (watchers env r) \<mapsto> c + int (Suc d) + 1),
                          trace := trace w @ replicate (Suc d + 1) (EvRun r) @
                                   [EvWarn (warning (watchers env r)) (vm (watchers env r))]\<rparr>"
    by (rule world.equality) simp_all
  from F [unfolded E] show ?case .
qed

lemma ran_replicate [simp]:
  "ran (replicate n (EvRun r)) = replicate n r" "warned (replicate n (EvRun r)) = []"
  by (induction n) simp_all

lemma flush_self_requeue:
  assumes dev: "\<not> production env"
    and wr: "run (watchers env r) = [QueueWatcher r]" "before (watchers env r) = None"
    and st: "\<not> flushing w" "\<not> insideRun w" "waiting w" "queue w = [r]"
      "afterFlushCallbacks w = []" "circular w (id_w (watchers env r)) = None"
    and fuel: "nat (limit_of m) < n"
  shows "\<exists>w' evs. flushSchedulerQueue n env m w = Some (Returned w') \<and>
           trace w' = trace w @ evs \<and>
           ran evs = replicate (nat (limit_of m) + 1) r \<and>
           warned evs = [(warning (watchers env r), vm (watchers env r))] \<and>
           queue w' = [] \<and> \<not> flushing w'"
proof -
  from fuel obtain k where n: "n = Suc k" by (cases n) auto
  let ?fl = "\<lambda>m' w'. flushSchedulerQueue k env m' w'"
  let ?i = "id_w (watchers env r)"
  let ?d = "nat (limit_of m)"
  let ?wn = "EvWarn (warning (watchers env r)) (vm (watchers env r))"
  let ?ws = "w\<lparr>currentFlushTimestamp := now w, flushing := True\<rparr>\<lparr>queue := [r], index := 0\<rparr>"
  let ?wf = "?ws\<lparr>queue := replicate (0 + ?d + 2) r, index := 0 + ?d + 2,
                  has := (has ?ws)(?i \<mapsto> ()),
                  circular := (circular ?ws)(?i \<mapsto> 0 + int ?d + 1),
                  trace := trace ?ws @ replicate (?d + 1) (EvRun r) @ [?wn]\<rparr>"
  have p: "flushing ?ws" "waiting ?ws" "queue ?ws = replicate (Suc 0) r" "index ?ws = 0"
    "(case circular ?ws ?i of None \<Rightarrow> 0 | Some c \<Rightarrow> c) = 0" "nat (limit_of m - 0) = ?d" "?d < Suc k"
    using st fuel n by simp_all
  have ff: "flush_for ?fl (Suc k) env (limit_of m) ?ws = Some (Returned ?wf)"
    by (rule flush_for_self_requeue [OF dev wr p])
  have ca: "call_afterFlush ?fl env ?wf = Some (Returned ?wf)"
    using st by (simp add: call_afterFlush_def)
  have "flush_while ?fl k env (limit_of m) ?wf = Some (Returned ?wf)"
    using st by (cases k) simp_all
  then have fw: "flush_while ?fl (Suc k) env (limit_of m) ?ws = Some (Returned ?wf)"
    using ff ca by (simp del: flush_for.simps)
  have "index (world_of (Returned ?wf)) \<le> length (queue (world_of (Returned ?wf)))" by simp
  from flush_finally_eq [OF this, of env] obtain V where
    fin: "flush_finally env (Returned ?wf) =
       Returned ((resetSchedulerState env ?wf)\<lparr>vms := V, trace := trace ?wf @ hook_events env ?wf\<rparr>)"
    by auto
  let ?w' = "(resetSchedulerState env ?wf)\<lparr>vms := V, trace := trace ?wf @ hook_events env ?wf\<rparr>"
  have res: "flushSchedulerQueue n env m w = Some (Returned ?w')"
    unfolding n using st(1,2) fw fin by (simp add: flush_try_def st(4))
  let ?evs = "replicate (?d + 1) (EvRun r) @ [?wn] @ hook_events env ?wf"
  have "trace ?w' = trace w @ ?evs" by simp
  moreover have "ran ?evs = replicate (?d + 1) r"
    by (simp add: ran_append hook_events_proj del: replicate.simps)
  moreover have "warned ?evs = [(warning (watchers env r), vm (watchers env r))]"
    by (simp add: warned_append hook_events_proj del: replicate.simps)
  moreover have "queue ?w' = []" "\<not> flushing ?w'" by (simp_all add: reset_fields)
  ultimately show ?thesis using res by blast
qed




subsection \<open>The limit of circular updates\<close>

text \<open>
  C10. \<open>maxUpdateCount || MAX_UPDATE_COUNT\<close> takes the default 100 for a missing limit
  and for the limit 0, so \<open>forceFlush(0)\<close> is \<open>forceFlush()\<close> and
  \<open>forceFlush(100)\<close>: with either, a watcher that keeps queueing itself runs 101
  times.
\<close>

theorem falsy_limit_is_default:
  "limit_of (Some 0) = 100 \<and> limit_of None = 100 \<and>
   flushSchedulerQueue n env (Some 0) w = flushSchedulerQueue n env None w \<and>
   flushSchedulerQueue n env (Some 0) w = flushSchedulerQueue n env (Some MAX_UPDATE_COUNT) w \<and>
   forceFlush (\<lambda>m' w'. flushSchedulerQueue n env m' w') (Some 0) w =
     forceFlush (\<lambda>m' w'. flushSchedulerQueue n env m' w') None w"
  by (cases n) (simp_all add: limit_of_def MAX_UPDATE_COUNT_def forceFlush_def)

theorem falsy_limit_is_default_witness:
  "\<exists>w'. flushSchedulerQueue 102 demo_env (Some 0)
            (idle\<lparr>queue := [7], has := [7 \<mapsto> ()], waiting := True\<rparr>) = Some (Returned w') \<and>
         flushSchedulerQueue 102 demo_env None
            (idle\<lparr>queue := [7], has := [7 \<mapsto> ()], waiting := True\<rparr>) = Some (Returned w') \<and>
         length (ran (trace w')) = 101"
proof -
  let ?ws = "idle\<lparr>queue := [7], has := [7 \<mapsto> ()], waiting := True\<rparr>"
  have d: "\<not> production demo_env" "run (watchers demo_env 7) = [QueueWatcher 7]"
    "before (watchers demo_env 7) = None" "nat (limit_of (Some 0)) < 102"
    by (simp_all add: demo_env_def job_def limit_of_def MAX_UPDATE_COUNT_def)
  have i: "\<not> flushing ?ws" "\<not> insideRun ?ws" "waiting ?ws" "queue ?ws = [7]"
    "afterFlushCallbacks ?ws = []" "circular ?ws (id_w (watchers demo_env 7)) = None"
    by (simp_all add: idle_def)
  have t: "trace ?ws = []" by (simp add: idle_def)
  from flush_self_requeue [OF d(1-3) i d(4)] obtain w' evs where
    f: "flushSchedulerQueue 102 demo_env (Some 0) ?ws = Some (Returned w')"
    and e: "trace w' = trace ?ws @ evs" "ran evs = replicate (nat (limit_of (Some 0)) + 1) 7"
    by blast
  have "length (ran (trace w')) = 101"
    using e unfolding t by (simp add: limit_of_def MAX_UPDATE_COUNT_def)
  moreover have "flushSchedulerQueue 102 demo_env None ?ws = Some (Returned w')"
    using falsy_limit_is_default [of 102 demo_env ?ws] f by simp
  ultimately show ?thesis using f by blast
qed

subsection \<open>A watcher that throws\<close>



subsection \<open>The updated hooks\<close>

lemma accounted_done: "accounted w [] (Returned w)"
  by (simp add: accounted_def)

lemma accounted_step:
  assumes p: "progressed w e1 w'" and i: "index w < length (queue w)"
    and e1: "ran e1 = [queue w ! index w]" "warned e1 = []"
    and l: "looped (w'\<lparr>index := Suc (index w')\<rparr>) e2 res"
    and a: "accounted (w'\<lparr>index := Suc (index w')\<rparr>) e2 res"
  shows "accounted w (e1 @ e2) res"
proof -
  let ?i = "index w"
  let ?Q = "queue (world_of res)"
  let ?i' = "index (world_of res)"
  from p i have t1: "take (Suc ?i) (queue w') = take (Suc ?i) (queue w)"
    and iw': "index w' = ?i"
    by (simp_all add: progressed_def min.absorb1 Suc_leI)
  from l iw' have t2: "take (Suc ?i) ?Q = take (Suc ?i) (queue w')"
    and ir: "Suc ?i \<le> ?i'" "?i' \<le> length ?Q"
    by (simp_all add: looped_def)
  from t1 t2 have T: "take (Suc ?i) ?Q = take (Suc ?i) (queue w)" by simp
  have "?Q ! ?i = take (Suc ?i) ?Q ! ?i" by simp
  also have "\<dots> = take (Suc ?i) (queue w) ! ?i" using T by simp
  also have "\<dots> = queue w ! ?i" by simp
  finally have nth: "?Q ! ?i = queue w ! ?i" .
  have lt: "?i < length (take ?i' ?Q)" using ir by simp
  have "take ?i' ?Q ! ?i # drop (Suc ?i) (take ?i' ?Q) = drop ?i (take ?i' ?Q)"
    using lt by (rule Cons_nth_drop_Suc)
  moreover have "take ?i' ?Q ! ?i = ?Q ! ?i" using ir by simp
  ultimately have D: "drop ?i (take ?i' ?Q) = queue w ! ?i # drop (Suc ?i) (take ?i' ?Q)"
    using nth by simp
  from a iw' obtain rs t where
    r: "ran e2 = rs @ t" "subseq rs (drop (Suc ?i) (take ?i' ?Q))"
      "if warned e2 = [] then rs = drop (Suc ?i) (take ?i' ?Q) else True"
      "case res of Returned w' \<Rightarrow> t = []
       | Thrown e w' \<Rightarrow> index w' < length (queue w') \<and> (t = [] \<or> t = [queue w' ! index w'])"
    by (auto simp add: accounted_def)
  have "ran (e1 @ e2) = (queue w ! ?i # rs) @ t" using e1 r(1) by (simp add: ran_append)
  moreover have "subseq (queue w ! ?i # rs) (drop ?i (take ?i' ?Q))"
    unfolding D using r(2) by simp
  moreover have "if warned (e1 @ e2) = [] then queue w ! ?i # rs = drop ?i (take ?i' ?Q) else True"
    unfolding D using r(3) e1 by (simp add: warned_append)
  ultimately show ?thesis unfolding accounted_def using r(4) by blast
qed

lemma accounted_seq:
  assumes l1: "looped w e1 (Returned w1)" and a1: "accounted w e1 (Returned w1)"
    and p: "progressed w1 e2 w2" and e2: "ran e2 = []" "warned e2 = []"
    and l2: "looped w2 e3 res" and a2: "accounted w2 e3 res"
  shows "accounted w (e1 @ e2 @ e3) res"
proof -
  let ?i = "index w"
  let ?j = "index w1"
  let ?Q = "queue (world_of res)"
  let ?i' = "index (world_of res)"
  from l1 have j: "?j = length (queue w1)" "?i \<le> ?j" by (simp_all add: looped_def)
  from p j have t2: "take ?j (queue w2) = queue w1" and j2: "index w2 = ?j"
    by (simp_all add: progressed_def)
  from l2 j2 have t3: "take ?j ?Q = take ?j (queue w2)"
    and jr: "?j \<le> ?i'" "?i' \<le> length ?Q"
    by (simp_all add: looped_def)
  from t2 t3 have T: "take ?j ?Q = queue w1" by simp
  have tt: "take ?j (take ?i' ?Q) = queue w1" using T jr by (simp add: min.absorb1)
  have "?j \<le> length (take ?i' ?Q)" using jr by simp
  from drop_take_drop [OF j(2) this]
  have D: "drop ?i (queue w1) @ drop ?j (take ?i' ?Q) = drop ?i (take ?i' ?Q)"
    unfolding tt .
  from a1 j obtain rs1 where
    r1: "ran e1 = rs1" "subseq rs1 (drop ?i (queue w1))"
      "if warned e1 = [] then rs1 = drop ?i (queue w1) else True"
    by (auto simp add: accounted_def)
  from a2 j2 obtain rs3 t where
    r3: "ran e3 = rs3 @ t" "subseq rs3 (drop ?j (take ?i' ?Q))"
      "if warned e3 = [] then rs3 = drop ?j (take ?i' ?Q) else True"
      "case res of Returned w' \<Rightarrow> t = []
       | Thrown e w' \<Rightarrow> index w' < length (queue w') \<and> (t = [] \<or> t = [queue w' ! index w'])"
    by (auto simp add: accounted_def)
  have "ran (e1 @ e2 @ e3) = (rs1 @ rs3) @ t" using r1(1) e2 r3(1) by (simp add: ran_append)
  moreover have "subseq (rs1 @ rs3) (drop ?i (take ?i' ?Q))"
    using list_emb_append_mono [OF r1(2) r3(2)] unfolding D .
  moreover have "if warned (e1 @ e2 @ e3) = [] then rs1 @ rs3 = drop ?i (take ?i' ?Q) else True"
    using r1(3) r3(3) e2 D by (auto simp add: warned_append)
  ultimately show ?thesis unfolding accounted_def using r3(4) by blast
qed

lemma take_Suc_prefix:
  assumes "take (Suc i) q' = take (Suc i) q" and "i < length q" and "length q \<le> length q'"
  shows "take i q' = take i q" and "q' ! i = q ! i"
proof -
  have "take i q' = take i (take (Suc i) q')" by (simp add: take_take_le)
  also have "\<dots> = take i (take (Suc i) q)" using assms(1) by simp
  also have "\<dots> = take i q" by (simp add: take_take_le)
  finally show "take i q' = take i q" .
  have "q' ! i = take (Suc i) q' ! i" by simp
  also have "\<dots> = take (Suc i) q ! i" using assms(1) by simp
  also have "\<dots> = q ! i" by simp
  finally show "q' ! i = q ! i" .
qed

lemma flush_for_accounted:
  assumes "guarded fl" and "flushing w" and "index w \<le> length (queue w)"
    and "flush_for fl k env m w = Some res"
  shows "\<exists>evs. looped w evs res \<and> accounted w evs res"
  using assms(2-)
proof (induction k arbitrary: w)
  case 0
  then have "index w = length (queue w)" "res = Returned w" by (auto split: if_splits)
  with 0 show ?case using looped_done accounted_done by blast
next
  case (Suc k)
  show ?case
  proof (cases "index w < length (queue w)")
    case False
    with Suc.prems have "index w = length (queue w)" "res = Returned w" by auto
    with Suc.prems show ?thesis using looped_done accounted_done by blast
  next
    case True
    let ?r = "queue w ! index w"
    from for_body_progress [OF assms(1) Suc.prems(1) True, of env m] obtain it where
      fb: "for_body fl env m w = Some it"
      and it: "case it of
        Next w' \<Rightarrow> \<exists>evs. progressed w evs w' \<and> ran evs = [queue w ! index w] \<and>
                         warned evs = [] \<and> updated evs = []
      | Break w' \<Rightarrow> \<exists>evs w2. progressed w evs w2 \<and> ran evs = [queue w ! index w] \<and>
                         warned evs = [] \<and> updated evs = [] \<and>
                         check_circular env m (queue w ! index w) w2 = Break w'
      | Raise e w' \<Rightarrow> \<exists>evs. progressed w evs w' \<and> warned evs = [] \<and> updated evs = [] \<and>
                         (ran evs = [] \<or> ran evs = [queue w ! index w])"
      by blast
    show ?thesis
    proof (cases it)
      case (Raise e w')
      with it obtain evs where p: "progressed w evs w'" "updated evs = []" "warned evs = []"
        and rn: "ran evs = [] \<or> ran evs = [?r]" by auto
      from Raise fb True Suc.prems(3) have res: "res = Thrown e w'" by simp
      have tS: "take (Suc (index w)) (queue w') = take (Suc (index w)) (queue w)"
        and len: "length (queue w) \<le> length (queue w')" and iw: "index w' = index w"
        using p(1) True by (simp_all add: progressed_def min.absorb1 Suc_leI)
      note pre = take_Suc_prefix [OF tS True len]
      have "looped w evs res"
        using p True res pre(1) by (simp add: looped_def progressed_def)
      moreover have "accounted w evs res"
        unfolding accounted_def
      proof (intro exI conjI)
        show "ran evs = [] @ ran evs" by simp
        show "subseq [] (drop (index w) (take (index (world_of res)) (queue (world_of res))))"
          by simp
        show "if warned evs = []
              then [] = drop (index w) (take (index (world_of res)) (queue (world_of res)))
              else True"
          using res iw by simp
        show "case res of Returned w' \<Rightarrow> ran evs = []
              | Thrown e w' \<Rightarrow> index w' < length (queue w') \<and>
                  (ran evs = [] \<or> ran evs = [queue w' ! index w'])"
          using res iw True len rn pre(2) by auto
      qed
      ultimately show ?thesis by blast
    next
      case (Break w')
      with it obtain evs w2 where p: "progressed w evs w2" "updated evs = []"
        and rn: "ran evs = [?r]"
        and c: "check_circular env m ?r w2 = Break w'" by auto
      from Break fb True Suc.prems(3) have res: "res = Returned w'" by simp
      let ?wn = "EvWarn (warning (watchers env ?r)) (vm (watchers env ?r))"
      from check_circular_Break(4) [OF c] have w': "queue w' = queue w2" "index w' = length (queue w2)"
        "trace w' = trace w2 @ [?wn]" "flushing w' = flushing w2" "insideRun w' = insideRun w2"
        "currentFlushTimestamp w' = currentFlushTimestamp w2"
        by simp_all
      have tS: "take (Suc (index w)) (queue w2) = take (Suc (index w)) (queue w)"
        and len: "length (queue w) \<le> length (queue w2)"
        using p(1) True by (simp_all add: progressed_def min.absorb1 Suc_leI)
      note pre = take_Suc_prefix [OF tS True len]
      have wne: "warned (evs @ [?wn]) \<noteq> []" by (simp add: warned_append)
      have "updated (evs @ [?wn]) = []" using p(2) by (simp add: updated_append)
      with pre(1) wne have "looped w (evs @ [?wn]) res"
        using p True res w' by (simp add: looped_def progressed_def)
      moreover have "accounted w (evs @ [?wn]) res"
        unfolding accounted_def
      proof (intro exI conjI)
        show "ran (evs @ [?wn]) = [?r] @ []" using rn by (simp add: ran_append)
        have lt: "index w < length (queue w2)" using True len by simp
        have "queue w2 ! index w # drop (Suc (index w)) (queue w2) = drop (index w) (queue w2)"
          using lt by (rule Cons_nth_drop_Suc)
        then have "drop (index w) (queue w2) = ?r # drop (Suc (index w)) (queue w2)"
          using pre(2) by simp
        then show "subseq [?r] (drop (index w) (take (index (world_of res)) (queue (world_of res))))"
          using res w' by simp
        show "if warned (evs @ [?wn]) = []
              then [?r] = drop (index w) (take (index (world_of res)) (queue (world_of res)))
              else True"
          using wne by simp
        show "case res of Returned w' \<Rightarrow> [] = []
              | Thrown e w' \<Rightarrow> index w' < length (queue w') \<and> ([] = [] \<or> [] = [queue w' ! index w'])"
          using res by simp
      qed
      ultimately show ?thesis by blast
    next
      case (Next w')
      with it obtain evs where p: "progressed w evs w'" and ev: "ran evs = [?r]"
        "warned evs = []" "updated evs = []" by auto
      let ?w1 = "w'\<lparr>index := Suc (index w')\<rparr>"
      from Next fb True Suc.prems(3) have rec: "flush_for fl k env m ?w1 = Some res" by simp
      have f1: "flushing ?w1" using p by (simp add: progressed_def)
      have i1: "index ?w1 \<le> length (queue ?w1)" using p True by (simp add: progressed_def)
      from Suc.IH [OF f1 i1 rec] obtain e2 where l: "looped ?w1 e2 res" and a: "accounted ?w1 e2 res"
        by blast
      from looped_step [OF p True ev l] accounted_step [OF p True ev(1,2) l a]
      show ?thesis by blast
    qed
  qed
qed

lemma flush_while_accounted:
  assumes "guarded fl" and "flushing w" and "index w \<le> length (queue w)"
    and "flush_while fl k env m w = Some res"
  shows "\<exists>evs. looped w evs res \<and> accounted w evs res"
  using assms(2-)
proof (induction k arbitrary: w)
  case 0
  then have "index w = length (queue w)" "res = Returned w" by (auto split: if_splits)
  with 0 show ?case using looped_done accounted_done by blast
next
  case (Suc k)
  show ?case
  proof (cases "length (queue w) \<noteq> index w \<or> afterFlushCallbacks w \<noteq> []")
    case False
    with Suc.prems have "index w = length (queue w)" "res = Returned w" by auto
    with Suc.prems show ?thesis using looped_done accounted_done by blast
  next
    case True
    then have fw: "flush_while fl (Suc k) env m w =
        and_then (flush_for fl (Suc k) env m w) (\<lambda>w1.
        and_then (call_afterFlush fl env w1) (\<lambda>w2. flush_while fl k env m w2))"
      by simp
    show ?thesis
    proof (cases "flush_for fl (Suc k) env m w")
      case None
      with fw Suc.prems(3) show ?thesis by simp
    next
      case (Some res1)
      from flush_for_accounted [OF assms(1) Suc.prems(1,2) Some] obtain e1 where
        l1: "looped w e1 res1" and a1: "accounted w e1 res1" by blast
      show ?thesis
      proof (cases res1)
        case (Thrown e w1)
        with fw Some Suc.prems(3) have "res = res1" by simp
        with l1 a1 show ?thesis by blast
      next
        case (Returned w1)
        from l1 Returned have f1: "flushing w1" by (simp add: looped_def)
        from call_afterFlush_progressed [OF assms(1) f1, of env] obtain w2 e2 where
          ca: "call_afterFlush fl env w1 = Some (Returned w2)" and p: "progressed w1 e2 w2"
          and e2: "ran e2 = []" "warned e2 = []" "updated e2 = []" by blast
        from fw Some Returned ca Suc.prems(3) have rec: "flush_while fl k env m w2 = Some res"
          by simp
        have f2: "flushing w2" using p by (simp add: progressed_def)
        have i2: "index w2 \<le> length (queue w2)"
          using p l1 Returned by (simp add: progressed_def looped_def)
        from Suc.IH [OF f2 i2 rec] obtain e3 where l2: "looped w2 e3 res"
          and a2: "accounted w2 e3 res" by blast
        from l1 a1 Returned have l1': "looped w e1 (Returned w1)" and a1': "accounted w e1 (Returned w1)"
          by simp_all
        from looped_seq [OF l1' p e2 l2] accounted_seq [OF l1' a1' p e2(1,2) l2 a2]
        show ?thesis by blast
      qed
    qed
  qed
qed

lemma flush_try_accounted:
  assumes "flush_try (\<lambda>m' w'. flushSchedulerQueue k env m' w') j env lim
             (w\<lparr>currentFlushTimestamp := now w, flushing := True\<rparr>) = Some r1"
  shows "\<exists>evs. looped (w\<lparr>currentFlushTimestamp := now w, flushing := True,
                        queue := sort_key (\<lambda>r. id_w (watchers env r)) (queue w), index := 0\<rparr>) evs r1 \<and>
               accounted (w\<lparr>currentFlushTimestamp := now w, flushing := True,
                        queue := sort_key (\<lambda>r. id_w (watchers env r)) (queue w), index := 0\<rparr>) evs r1"
proof -
  let ?ws = "w\<lparr>currentFlushTimestamp := now w, flushing := True,
               queue := sort_key (\<lambda>r. id_w (watchers env r)) (queue w), index := 0\<rparr>"
  have "flush_while (\<lambda>m' w'. flushSchedulerQueue k env m' w') j env lim ?ws = Some r1"
    using assms by (simp add: flush_try_def)
  moreover have "flushing ?ws" "index ?ws \<le> length (queue ?ws)" by simp_all
  ultimately show ?thesis using flush_while_accounted [OF guarded_flush] by blast
qed

text \<open>
  C8, as the code has it. Whether the \<open>try\<close> block returns or throws, the \<open>finally\<close>
  block calls the \<open>updated\<close> hook for the queue entries before the cursor, last first,
  and only for a watcher that is its component's \<open>_watcher\<close> while the component is
  mounted and not destroyed; no \<open>updated\<close> hook is called before that. The watchers run
  in the flush are \<open>rs\<close>, which are entries before the cursor in queue order, followed
  by the run of the entry at the cursor if its \<open>run\<close> threw. Unless a warning was given
  \<open>rs\<close> is all the entries before the cursor: then the hooks go to exactly the watchers
  that ran and returned, in reverse order. From a step of the \<open>for\<close> loop that ends with
  the warning on, the entries of the queue at that step are all before the final cursor,
  and the watchers run are the one of that step and entries queued later: the entries
  that step has skipped are never run and are handed to the hooks.
\<close>

theorem updated_hooks_after_flush:
  assumes "\<not> flushing w" and "\<not> insideRun w"
    and "flushSchedulerQueue n env m w = Some res"
  shows
   "(\<exists>k r1 evs hs rs t.
       n = Suc k \<and>
       flush_try (\<lambda>m' w'. flushSchedulerQueue k env m' w') (Suc k) env (limit_of m)
         (w\<lparr>currentFlushTimestamp := now w, flushing := True\<rparr>) = Some r1 \<and>
       trace (world_of r1) = trace w @ evs \<and> updated evs = [] \<and>
       trace (world_of res) = trace w @ evs @ hs \<and> ran hs = [] \<and>
       updated hs =
         map (\<lambda>r. vm (watchers env r))
           (filter (live env (vms (world_of res)))
             (rev (take (index (world_of r1)) (queue (world_of r1))))) \<and>
       ran evs = rs @ t \<and>
       subseq rs (take (index (world_of r1)) (queue (world_of r1))) \<and>
       (if warned evs = [] then
          rs = take (index (world_of r1)) (queue (world_of r1)) \<and>
          updated hs =
            map (\<lambda>r. vm (watchers env r)) (filter (live env (vms (world_of res))) (rev rs))
        else True) \<and>
       (case r1 of
          Returned w1 \<Rightarrow> t = [] \<and> res = Returned (world_of res)
        | Thrown e w1 \<Rightarrow>
            index w1 < length (queue w1) \<and> (t = [] \<or> t = [queue w1 ! index w1]) \<and>
            res = Thrown e (world_of res))) \<and>
    (flushing wa \<and> index wa < length (queue wa) \<and>
     for_body (\<lambda>m' w'. flushSchedulerQueue na env m' w') env lim wa = Some (Break wb) \<and>
     flush_while (\<lambda>m' w'. flushSchedulerQueue na env m' w') (Suc j) env lim wa = Some rc \<longrightarrow>
       index wa < length (queue wb) \<and>
       length (queue wb) \<le> index (world_of rc) \<and>
       take (length (queue wb)) (queue (world_of rc)) = queue wb \<and>
       (\<exists>evs rs t.
          trace (world_of rc) = trace wa @ evs \<and>
          ran evs = (queue wa ! index wa) # rs @ t \<and>
          subseq rs (drop (length (queue wb))
                       (take (index (world_of rc)) (queue (world_of rc)))) \<and>
          (case rc of
             Returned w' \<Rightarrow> t = []
           | Thrown e w' \<Rightarrow>
               index w' < length (queue w') \<and> (t = [] \<or> t = [queue w' ! index w']))) \<and>
       updated (hook_events env (world_of rc)) =
         map (\<lambda>r. vm (watchers env r))
           (filter (live env (vms (world_of rc)))
             (rev (take (index (world_of rc)) (queue (world_of rc))))))"
proof (intro conjI impI)
  let ?w0 = "w\<lparr>currentFlushTimestamp := now w, flushing := True\<rparr>"
  from assms obtain k where n: "n = Suc k" by (cases n) auto
  let ?t = "flush_try (\<lambda>m' w'. flushSchedulerQueue k env m' w') (Suc k) env (limit_of m) ?w0"
  from assms(3) n flush_unfold [OF assms(1,2), of k env m]
  have "map_option (flush_finally env) ?t = Some res"
    by (simp del: flushSchedulerQueue.simps)
  then obtain r1 where r1: "?t = Some r1" "res = flush_finally env r1" by auto
  from flush_try_accounted [OF r1(1)] obtain evs where
    l: "looped (?w0\<lparr>queue := sort_key (\<lambda>r. id_w (watchers env r)) (queue w), index := 0\<rparr>) evs r1"
    and a: "accounted (?w0\<lparr>queue := sort_key (\<lambda>r. id_w (watchers env r)) (queue w), index := 0\<rparr>) evs r1"
    by auto
  from l have i: "index (world_of r1) \<le> length (queue (world_of r1))"
    and t: "trace (world_of r1) = trace w @ evs" and u: "updated evs = []"
    by (simp_all add: looped_def)
  from flush_finally_eq [OF i, of env] obtain V where
    lv: "\<forall>x. live env V x = live env (vms (world_of r1)) x"
    and ff: "flush_finally env r1 = (case r1 of Returned w \<Rightarrow> Returned | Thrown e w \<Rightarrow> Thrown e)
               ((resetSchedulerState env (world_of r1))
                  \<lparr>vms := V, trace := trace (world_of r1) @ hook_events env (world_of r1)\<rparr>)"
    by blast
  have wr: "world_of res = (resetSchedulerState env (world_of r1))
                  \<lparr>vms := V, trace := trace (world_of r1) @ hook_events env (world_of r1)\<rparr>"
    using r1(2) ff by (cases r1) simp_all
  have lv': "live env (vms (world_of res)) = live env (vms (world_of r1))"
    using lv wr by auto
  have tr: "trace (world_of res) = trace w @ evs @ hook_events env (world_of r1)"
    using wr t by simp
  have uh: "updated (hook_events env (world_of r1)) =
             map (\<lambda>r. vm (watchers env r))
               (filter (live env (vms (world_of res)))
                 (rev (take (index (world_of r1)) (queue (world_of r1)))))"
    unfolding lv' by (rule hook_events_proj(3))
  from a obtain rs t where
    rs: "ran evs = rs @ t" "subseq rs (take (index (world_of r1)) (queue (world_of r1)))"
      "if warned evs = [] then rs = take (index (world_of r1)) (queue (world_of r1)) else True"
      "case r1 of Returned w' \<Rightarrow> t = []
       | Thrown e w' \<Rightarrow> index w' < length (queue w') \<and> (t = [] \<or> t = [queue w' ! index w'])"
    by (auto simp add: accounted_def)
  have c1: "if warned evs = [] then
          rs = take (index (world_of r1)) (queue (world_of r1)) \<and>
          updated (hook_events env (world_of r1)) =
            map (\<lambda>r. vm (watchers env r)) (filter (live env (vms (world_of res))) (rev rs))
        else True"
    using rs(3) uh by (auto split: if_splits)
  have c2: "case r1 of
          Returned w1 \<Rightarrow> t = [] \<and> res = Returned (world_of res)
        | Thrown e w1 \<Rightarrow>
            index w1 < length (queue w1) \<and> (t = [] \<or> t = [queue w1 ! index w1]) \<and>
            res = Thrown e (world_of res)"
    using rs(4) r1(2) ff by (cases r1) simp_all
  show "\<exists>k r1 evs hs rs t.
       n = Suc k \<and>
       flush_try (\<lambda>m' w'. flushSchedulerQueue k env m' w') (Suc k) env (limit_of m) ?w0 = Some r1 \<and>
       trace (world_of r1) = trace w @ evs \<and> updated evs = [] \<and>
       trace (world_of res) = trace w @ evs @ hs \<and> ran hs = [] \<and>
       updated hs =
         map (\<lambda>r. vm (watchers env r))
           (filter (live env (vms (world_of res)))
             (rev (take (index (world_of r1)) (queue (world_of r1))))) \<and>
       ran evs = rs @ t \<and>
       subseq rs (take (index (world_of r1)) (queue (world_of r1))) \<and>
       (if warned evs = [] then
          rs = take (index (world_of r1)) (queue (world_of r1)) \<and>
          updated hs =
            map (\<lambda>r. vm (watchers env r)) (filter (live env (vms (world_of res))) (rev rs))
        else True) \<and>
       (case r1 of
          Returned w1 \<Rightarrow> t = [] \<and> res = Returned (world_of res)
        | Thrown e w1 \<Rightarrow>
            index w1 < length (queue w1) \<and> (t = [] \<or> t = [queue w1 ! index w1]) \<and>
            res = Thrown e (world_of res))"
    using n r1(1) t u tr hook_events_proj(1) [of env "world_of r1"] uh rs(1,2) c1 c2 by blast
next
  let ?fl = "\<lambda>m' w'. flushSchedulerQueue na env m' w'"
  let ?r = "queue wa ! index wa"
  let ?wn = "EvWarn (warning (watchers env ?r)) (vm (watchers env ?r))"
  assume h: "flushing wa \<and> index wa < length (queue wa) \<and>
     for_body ?fl env lim wa = Some (Break wb) \<and>
     flush_while ?fl (Suc j) env lim wa = Some rc"
  then have f: "flushing wa" and i: "index wa < length (queue wa)"
    and b: "for_body ?fl env lim wa = Some (Break wb)"
    and fw: "flush_while ?fl (Suc j) env lim wa = Some rc" by blast+
  from for_body_progress [OF guarded_flush f i, of na env env lim] b obtain ev0 w2 where
    p: "progressed wa ev0 w2" and r0: "ran ev0 = [?r]"
    and c: "check_circular env lim ?r w2 = Break wb"
    by auto
  from check_circular_Break(4) [OF c] have wb: "queue wb = queue w2" "index wb = length (queue wb)"
    "trace wb = trace w2 @ [?wn]" "flushing wb = flushing w2"
    by simp_all
  have fb: "flushing wb" and twb: "trace wb = trace wa @ ev0 @ [?wn]"
    and len: "length (queue wa) \<le> length (queue wb)"
    using wb p by (simp_all add: progressed_def)
  show il: "index wa < length (queue wb)" using i len by simp
  from call_afterFlush_progressed [OF guarded_flush fb, of na env env] obtain wc ec where
    ca: "call_afterFlush ?fl env wb = Some (Returned wc)" and pc: "progressed wb ec wc"
    and ec: "ran ec = []" by blast
  have ff: "flush_for ?fl (Suc j) env lim wa = Some (Returned wb)" using b i by simp
  have rec: "flush_while ?fl j env lim wc = Some rc"
    using fw ff ca i by (simp del: flush_for.simps)
  have fc: "flushing wc" and ic: "index wc = length (queue wb)"
    and lc: "length (queue wb) \<le> length (queue wc)"
    and tc: "take (length (queue wb)) (queue wc) = queue wb"
    and trc: "trace wc = trace wb @ ec"
    using pc wb(2) by (simp_all add: progressed_def)
  have icl: "index wc \<le> length (queue wc)" using ic lc by simp
  from flush_while_accounted [OF guarded_flush fc icl rec] obtain e3 where
    l: "looped wc e3 rc" and a: "accounted wc e3 rc" by blast
  from l ic show "length (queue wb) \<le> index (world_of rc)" by (simp add: looped_def)
  from l ic tc show "take (length (queue wb)) (queue (world_of rc)) = queue wb"
    by (simp add: looped_def)
  from a ic obtain rs t where
    rs: "ran e3 = rs @ t"
      "subseq rs (drop (length (queue wb)) (take (index (world_of rc)) (queue (world_of rc))))"
      "case rc of Returned w' \<Rightarrow> t = []
       | Thrown e w' \<Rightarrow> index w' < length (queue w') \<and> (t = [] \<or> t = [queue w' ! index w'])"
    by (auto simp add: accounted_def)
  have "trace (world_of rc) = trace wa @ (ev0 @ [?wn] @ ec @ e3)"
    using l trc twb by (simp add: looped_def)
  moreover have "ran (ev0 @ [?wn] @ ec @ e3) = ?r # rs @ t"
    using r0 ec rs(1) by (simp add: ran_append)
  ultimately show "\<exists>evs rs t.
          trace (world_of rc) = trace wa @ evs \<and>
          ran evs = ?r # rs @ t \<and>
          subseq rs (drop (length (queue wb))
                       (take (index (world_of rc)) (queue (world_of rc)))) \<and>
          (case rc of
             Returned w' \<Rightarrow> t = []
           | Thrown e w' \<Rightarrow>
               index w' < length (queue w') \<and> (t = [] \<or> t = [queue w' ! index w']))"
    using rs(2,3) by blast
  show "updated (hook_events env (world_of rc)) =
         map (\<lambda>r. vm (watchers env r))
           (filter (live env (vms (world_of rc)))
             (rev (take (index (world_of rc)) (queue (world_of rc)))))"
    by (rule hook_events_proj(3))
qed

theorem updated_hooks_after_flush_witness:
  "\<not> flushing (idle\<lparr>queue := [3, 9, 1]\<rparr>) \<and> \<not> insideRun (idle\<lparr>queue := [3, 9, 1]\<rparr>) \<and>
   (\<exists>w'. flushSchedulerQueue 5 demo_env None (idle\<lparr>queue := [3, 9, 1]\<rparr>) =
            Some (Thrown (Error ''boom'') w') \<and>
          trace w' = [EvRun 1, EvRun 3, EvRun 9, EvUpdated 3, EvUpdated 1]) \<and>
   \<not> flushing (idle\<lparr>queue := [3, 1, 2], vms := component(2 := (component 2)\<lparr>isDestroyed := True\<rparr>)\<rparr>) \<and>
   \<not> insideRun (idle\<lparr>queue := [3, 1, 2], vms := component(2 := (component 2)\<lparr>isDestroyed := True\<rparr>)\<rparr>) \<and>
   (\<exists>w'. flushSchedulerQueue 5 demo_env None
            (idle\<lparr>queue := [3, 1, 2], vms := component(2 := (component 2)\<lparr>isDestroyed := True\<rparr>)\<rparr>) =
          Some (Returned w') \<and>
          trace w' = [EvRun 1, EvRun 2, EvRun 3, EvUpdated 3, EvUpdated 1]) \<and>
   flushing (idle\<lparr>queue := [7, 7, 7, 8], index := 2, has := [8 \<mapsto> ()], circular := [7 \<mapsto> 2],
                  flushing := True, waiting := True, trace := [EvRun 7, EvRun 7]\<rparr>) \<and>
   index (idle\<lparr>queue := [7, 7, 7, 8], index := 2, has := [8 \<mapsto> ()], circular := [7 \<mapsto> 2],
               flushing := True, waiting := True, trace := [EvRun 7, EvRun 7]\<rparr>) <
     length (queue (idle\<lparr>queue := [7, 7, 7, 8], index := 2, has := [8 \<mapsto> ()], circular := [7 \<mapsto> 2],
               flushing := True, waiting := True, trace := [EvRun 7, EvRun 7]\<rparr>)) \<and>
   (\<exists>wb. for_body (\<lambda>m' w'. flushSchedulerQueue 5 demo_env m' w') demo_env 2
            (idle\<lparr>queue := [7, 7, 7, 8], index := 2, has := [8 \<mapsto> ()], circular := [7 \<mapsto> 2],
                  flushing := True, waiting := True, trace := [EvRun 7, EvRun 7]\<rparr>) = Some (Break wb) \<and>
          flush_while (\<lambda>m' w'. flushSchedulerQueue 5 demo_env m' w') (Suc 0) demo_env 2
            (idle\<lparr>queue := [7, 7, 7, 8], index := 2, has := [8 \<mapsto> ()], circular := [7 \<mapsto> 2],
                  flushing := True, waiting := True, trace := [EvRun 7, EvRun 7]\<rparr>) = Some (Returned wb) \<and>
          queue wb = [7, 7, 7, 7, 8] \<and> length (queue wb) \<le> index wb \<and>
          ran (trace wb) = [7, 7, 7] \<and>
          updated (hook_events demo_env wb) = [8, 7, 7, 7, 7])"
proof -
  let ?we = "idle\<lparr>queue := [3, 9, 1]\<rparr>"
  let ?wn = "idle\<lparr>queue := [3, 1, 2], vms := component(2 := (component 2)\<lparr>isDestroyed := True\<rparr>)\<rparr>"
  let ?wa = "idle\<lparr>queue := [7, 7, 7, 8], index := 2, has := [8 \<mapsto> ()], circular := [7 \<mapsto> 2],
                  flushing := True, waiting := True, trace := [EvRun 7, EvRun 7]\<rparr>"
  let ?fl = "\<lambda>m' w'. flushSchedulerQueue 5 demo_env m' w'"
  have he: "\<not> flushing ?we" "\<not> insideRun ?we" by (simp_all add: idle_def)
  have hn: "\<not> flushing ?wn" "\<not> insideRun ?wn" by (simp_all add: idle_def)
  have ha: "flushing ?wa" "index ?wa < length (queue ?wa)" by (simp_all add: idle_def)
  have "case flushSchedulerQueue 5 demo_env None ?we of
          Some (Thrown (Error s) w') \<Rightarrow> s = ''boom'' \<and>
             trace w' = [EvRun 1, EvRun 3, EvRun 9, EvUpdated 3, EvUpdated 1]
        | _ \<Rightarrow> False"
    by code_simp
  then obtain we' where fe: "flushSchedulerQueue 5 demo_env None ?we = Some (Thrown (Error ''boom'') we')"
    and we': "trace we' = [EvRun 1, EvRun 3, EvRun 9, EvUpdated 3, EvUpdated 1]"
    by (auto split: option.splits result.splits error.splits)
  have "case flushSchedulerQueue 5 demo_env None ?wn of
          Some (Returned w') \<Rightarrow> trace w' = [EvRun 1, EvRun 2, EvRun 3, EvUpdated 3, EvUpdated 1]
        | _ \<Rightarrow> False"
    by code_simp
  then obtain wn' where fn: "flushSchedulerQueue 5 demo_env None ?wn = Some (Returned wn')"
    and wn': "trace wn' = [EvRun 1, EvRun 2, EvRun 3, EvUpdated 3, EvUpdated 1]"
    by (auto split: option.splits result.splits)
  have "case for_body ?fl demo_env 2 ?wa of
          Some (Break wb) \<Rightarrow> queue wb = [7, 7, 7, 7, 8] \<and> index wb = 5 \<and>
            afterFlushCallbacks wb = [] \<and> ran (trace wb) = [7, 7, 7] \<and>
            updated (hook_events demo_env wb) = [8, 7, 7, 7, 7]
        | _ \<Rightarrow> False"
    by code_simp
  then obtain wb where b: "for_body ?fl demo_env 2 ?wa = Some (Break wb)"
    and wb: "queue wb = [7, 7, 7, 7, 8]" "index wb = 5" "afterFlushCallbacks wb = []"
      "ran (trace wb) = [7, 7, 7]" "updated (hook_events demo_env wb) = [8, 7, 7, 7, 7]"
    by (auto split: option.splits iteration.splits)
  have fw: "flush_while ?fl (Suc 0) demo_env 2 ?wa = Some (Returned wb)"
    using b wb(1-3) ha(2) by (simp add: call_afterFlush_def)
  from updated_hooks_after_flush [OF he fe, of ?wa 5 2 wb 0 "Returned wb"] ha b fw
  have g1: "length (queue wb) \<le> index wb" by simp
  from updated_hooks_after_flush [OF hn fn, of ?wa 5 2 wb 0 "Returned wb"]
  have g2: "\<exists>k. (5::nat) = Suc k" by blast
  from b fw wb g1 have "\<exists>wb. for_body ?fl demo_env 2 ?wa = Some (Break wb) \<and>
          flush_while ?fl (Suc 0) demo_env 2 ?wa = Some (Returned wb) \<and>
          queue wb = [7, 7, 7, 7, 8] \<and> length (queue wb) \<le> index wb \<and>
          ran (trace wb) = [7, 7, 7] \<and>
          updated (hook_events demo_env wb) = [8, 7, 7, 7, 7]"
    by blast
  moreover from fe we' have "\<exists>w'. flushSchedulerQueue 5 demo_env None ?we =
            Some (Thrown (Error ''boom'') w') \<and>
          trace w' = [EvRun 1, EvRun 3, EvRun 9, EvUpdated 3, EvUpdated 1]" by blast
  moreover from fn wn' have "\<exists>w'. flushSchedulerQueue 5 demo_env None ?wn = Some (Returned w') \<and>
          trace w' = [EvRun 1, EvRun 2, EvRun 3, EvUpdated 3, EvUpdated 1]" by blast
  ultimately show ?thesis using he hn ha by (intro conjI)
qed

text \<open>
  After the warning about watcher 7 the cursor is at the end of the queue: watcher 8 has
  not run, and its component 8 gets the \<open>updated\<close> hook.
\<close>

theorem updated_hook_without_run_counterexample:
  "ran (trace (world_of (the (script 5 demo_env
      [QueueWatcher 7, QueueWatcher 8, ForceFlush (Some 2)] idle)))) = [7, 7, 7] \<and>
   updated (trace (world_of (the (script 5 demo_env
      [QueueWatcher 7, QueueWatcher 8, ForceFlush (Some 2)] idle)))) = [8, 7, 7, 7, 7] \<and>
   vm (watchers demo_env 8) = 8"
  by code_simp

end
